theory Spec2Isabelle
  imports Main "HOL-Library.AList"
begin

section \<open>Strings as the source uses them\<close>

text \<open>
  A Python \<open>str\<close> is modelled as a \<open>string\<close> whose characters are read as the code points
  of the same number (0 to 255).  The definitions below embed the string operations that
  \<open>IMG-ZIP-MOD.py\<close> calls: \<open>str.lower\<close>, \<open>str.split\<close> with a one-character separator,
  the built-in \<open>int\<close> on a string, \<open>os.path.splitext\<close>, \<open>os.sep.join\<close> and the
  rendering of integers and pairs inside an f-string.
\<close>

definition lower_char :: "char \<Rightarrow> char" where
  "lower_char c =
     (let n = (of_char c :: nat)
      in if (65 \<le> n \<and> n \<le> 90) \<or> (192 \<le> n \<and> n \<le> 222 \<and> n \<noteq> 215)
         then char_of (n + 32) else c)"

definition lower :: "string \<Rightarrow> string" where
  "lower s = map lower_char s"

text \<open>\<open>s.split(c)\<close>: the pieces between the occurrences of \<open>c\<close>; never an empty list.\<close>

fun str_split :: "char \<Rightarrow> string \<Rightarrow> string list" where
  "str_split c [] = [[]]"
| "str_split c (x # xs) =
     (if x = c then [] # str_split c xs
      else (case str_split c xs of
              [] \<Rightarrow> [[x]]
            | w # ws \<Rightarrow> (x # w) # ws))"

text \<open>\<open>c.join(parts)\<close>.\<close>

fun str_join :: "char \<Rightarrow> string list \<Rightarrow> string" where
  "str_join c [] = []"
| "str_join c [p] = p"
| "str_join c (p # q # ps) = p @ c # str_join c (q # ps)"

text \<open>
  The built-in \<open>int(s)\<close> in base ten: white space around the literal is dropped, one sign
  may come first, and the digits may be separated by single underscores.  Everything else
  raises \<open>ValueError\<close>, which is \<open>None\<close> here.
\<close>

definition is_space :: "char \<Rightarrow> bool" where
  "is_space c = ((of_char c :: nat) \<in> {9, 10, 11, 12, 13, 32, 133, 160})"

definition is_digit :: "char \<Rightarrow> bool" where
  "is_digit c = (48 \<le> (of_char c :: nat) \<and> (of_char c :: nat) \<le> 57)"

definition digit_val :: "char \<Rightarrow> nat" where
  "digit_val c = (of_char c :: nat) - 48"

definition strip :: "string \<Rightarrow> string" where
  "strip s = rev (dropWhile is_space (rev (dropWhile is_space s)))"

fun digits_from :: "nat \<Rightarrow> string \<Rightarrow> nat option" where
  "digits_from acc [] = Some acc"
| "digits_from acc (c # cs) =
     (if is_digit c then digits_from (10 * acc + digit_val c) cs
      else if c = CHR ''_'' then
        (case cs of
           [] \<Rightarrow> None
         | d # ds \<Rightarrow> if is_digit d then digits_from (10 * acc + digit_val d) ds else None)
      else None)"

definition unsigned_literal :: "string \<Rightarrow> nat option" where
  "unsigned_literal s =
     (case s of
        [] \<Rightarrow> None
      | c # cs \<Rightarrow> if is_digit c then digits_from (digit_val c) cs else None)"

definition py_int :: "string \<Rightarrow> int option" where
  "py_int s =
     (case strip s of
        [] \<Rightarrow> None
      | c # cs \<Rightarrow>
          if c = CHR ''+'' then map_option int (unsigned_literal cs)
          else if c = CHR ''-'' then map_option (\<lambda>n. - int n) (unsigned_literal cs)
          else map_option int (unsigned_literal (c # cs)))"

text \<open>\<open>str(n)\<close> for an integer and \<open>str((a, b))\<close> for a pair of integers.\<close>

fun str_nat :: "nat \<Rightarrow> string" where
  "str_nat n =
     (if n < 10 then [char_of (48 + n)]
      else str_nat (n div 10) @ [char_of (48 + n mod 10)])"

definition str_int :: "int \<Rightarrow> string" where
  "str_int i = (if i < 0 then CHR ''-'' # str_nat (nat (- i)) else str_nat (nat i))"

definition str_pair :: "int \<times> int \<Rightarrow> string" where
  "str_pair p = ''('' @ str_int (fst p) @ '', '' @ str_int (snd p) @ '')''"

text \<open>
  \<open>os.path.splitext\<close> on a file name (no separator in it): the extension starts at the
  last dot, unless only dots come before that dot.
\<close>

fun last_dot :: "string \<Rightarrow> nat option" where
  "last_dot [] = None"
| "last_dot (c # cs) =
     (case last_dot cs of
        Some i \<Rightarrow> Some (Suc i)
      | None \<Rightarrow> if c = CHR ''.'' then Some 0 else None)"

definition splitext :: "string \<Rightarrow> string \<times> string" where
  "splitext p =
     (case last_dot p of
        None \<Rightarrow> (p, [])
      | Some i \<Rightarrow>
          if \<exists>c \<in> set (take i p). c \<noteq> CHR ''.'' then (take i p, drop i p) else (p, []))"

section \<open>Expected size and tolerance\<close>

text \<open>
  \<open>get_expected_size\<close>: the unpacking \<open>w, h = ...\<close> raises \<open>ValueError\<close> unless the split
  gives exactly two pieces, and so does \<open>int\<close> on a piece that is no integer literal; both
  are caught and give \<open>None\<close>.
\<close>

definition get_expected_size :: "string \<Rightarrow> (int \<times> int) option" where
  "get_expected_size folder_name =
     (case str_split CHR ''x'' (lower folder_name) of
        [w, h] \<Rightarrow>
          (case py_int w of
             None \<Rightarrow> None
           | Some a \<Rightarrow> (case py_int h of None \<Rightarrow> None | Some b \<Rightarrow> Some (a, b)))
      | _ \<Rightarrow> None)"

definition is_within_tolerance :: "int \<times> int \<Rightarrow> int \<times> int \<Rightarrow> int \<Rightarrow> bool" where
  "is_within_tolerance actual_size expected_size tolerance =
     (\<bar>fst actual_size - fst expected_size\<bar> \<le> tolerance \<and>
      \<bar>snd actual_size - snd expected_size\<bar> \<le> tolerance)"

section \<open>The working tree\<close>

text \<open>
  The extraction directory is a tree: every directory lists its files (name and bytes) and
  its subdirectories (name and subtree), in the order in which the operating system
  enumerates them.  A path is the list of directory names below the extraction directory.
\<close>

datatype tree = Dir (dir_files: "(string \<times> string) list") (dir_subdirs: "(string \<times> tree) list")

definition os_sep :: char where
  "os_sep = CHR ''/''"

definition valid_name :: "string \<Rightarrow> bool" where
  "valid_name n = (n \<noteq> [] \<and> n \<noteq> ''.'' \<and> n \<noteq> ''..'' \<and> os_sep \<notin> set n)"

text \<open>What a file system guarantees: names are unique within a directory and are valid.\<close>

fun wf_tree :: "tree \<Rightarrow> bool" where
  "wf_tree (Dir fs ds) =
     (distinct (map fst fs @ map fst ds) \<and>
      (\<forall>n \<in> set (map fst fs @ map fst ds). valid_name n) \<and>
      (\<forall>x \<in> set ds. wf_tree (snd x)))"

fun read_file :: "tree \<Rightarrow> string list \<Rightarrow> string \<Rightarrow> string option" where
  "read_file (Dir fs ds) [] f = map_of fs f"
| "read_file (Dir fs ds) (d # p) f =
     (case map_of ds d of None \<Rightarrow> None | Some t \<Rightarrow> read_file t p f)"

fun remove_file :: "string list \<Rightarrow> string \<Rightarrow> tree \<Rightarrow> tree" where
  "remove_file [] f (Dir fs ds) = Dir (filter (\<lambda>x. fst x \<noteq> f) fs) ds"
| "remove_file (d # p) f (Dir fs ds) =
     Dir fs (map (\<lambda>x. if fst x = d then (fst x, remove_file p f (snd x)) else x) ds)"

text \<open>
  \<open>os.walk(base_dir)\<close>, top down: a directory is reported with the names of its
  subdirectories and of its files before any of its subdirectories is entered.  The loops
  of the source remove files only, and only files of the directory just reported, so the
  directories that \<open>os.walk\<close> goes on to list are those of the tree the walk started on.
\<close>

fun walk :: "string list \<Rightarrow> tree \<Rightarrow> (string list \<times> string list \<times> string list) list" where
  "walk root (Dir fs ds) =
     (root, map fst ds, map fst fs) # concat (map (\<lambda>x. walk (root @ [fst x]) (snd x)) ds)"

text \<open>
  \<open>os.path.relpath(root, base_dir)\<close> for a directory reported by the walk, and
  \<open>os.path.join(root, file)\<close> as the text that a warning shows.
\<close>

definition relpath :: "string list \<Rightarrow> string" where
  "relpath root = (if root = [] then ''.'' else str_join os_sep root)"

definition path_text :: "string \<Rightarrow> string list \<Rightarrow> string \<Rightarrow> string" where
  "path_text base_dir root file = str_join os_sep (base_dir # root @ [file])"

section \<open>The environment: image decoder and file removal\<close>

datatype exn = OSError string | UnidentifiedImageError string

fun str_exn :: "exn \<Rightarrow> string" where
  "str_exn (OSError m) = m"
| "str_exn (UnidentifiedImageError m) = m"

text \<open>
  The two capabilities that the source calls and does not define: the image library, which
  gives the pixel size of a file's bytes or raises, and the operating system's decision to
  refuse the removal of a file (permissions, a file in use).
\<close>

record env =
  decode :: "string \<Rightarrow> exn + (int \<times> int)"
  remove_refused :: "string list \<times> string \<Rightarrow> string option"

definition Image_open_size :: "env \<Rightarrow> tree \<Rightarrow> string list \<Rightarrow> string \<Rightarrow> exn + (int \<times> int)" where
  "Image_open_size e t root file =
     (case read_file t root file of
        None \<Rightarrow> Inl (OSError ''No such file or directory'')
      | Some bytes \<Rightarrow> decode e bytes)"

definition os_remove :: "env \<Rightarrow> tree \<Rightarrow> string list \<Rightarrow> string \<Rightarrow> exn + tree" where
  "os_remove e t root file =
     (case read_file t root file of
        None \<Rightarrow> Inl (OSError ''No such file or directory'')
      | Some bytes \<Rightarrow>
          (case remove_refused e (root, file) of
             Some m \<Rightarrow> Inl (OSError m)
           | None \<Rightarrow> Inr (remove_file root file t)))"

section \<open>Loops that an exception can leave\<close>

text \<open>
  A \<open>for\<close> loop whose body may raise: the state reached so far is kept together with the
  exception, since the files removed before the exception stay removed.
\<close>

fun for_loop :: "('a \<Rightarrow> 's \<Rightarrow> 's \<times> exn option) \<Rightarrow> 'a list \<Rightarrow> 's \<Rightarrow> 's \<times> exn option" where
  "for_loop body [] s = (s, None)"
| "for_loop body (x # xs) s =
     (case body x s of
        (s', Some e) \<Rightarrow> (s', Some e)
      | (s', None) \<Rightarrow> for_loop body xs s')"

section \<open>The operations of the cleaner\<close>

text \<open>\<open>list_files_not_in_txt\<close>: reads the tree, changes nothing.\<close>

definition found_names :: "tree \<Rightarrow> string set" where
  "found_names t =
     fold (\<lambda>(root, dirs, files) found.
             fold (\<lambda>file found. insert (fst (splitext file)) found) files found)
          (walk [] t) {}"

definition list_files_not_in_txt :: "tree \<Rightarrow> string set \<Rightarrow> string set \<times> string set" where
  "list_files_not_in_txt t retain_list =
     (let not_in_list = found_names t - retain_list;
          not_in_zip = retain_list - found_names t
      in (not_in_list, not_in_zip))"

text \<open>
  \<open>delete_unlisted_images\<close>: the state of the loops is the tree and the list \<open>deleted\<close>;
  an exception of \<open>os.remove\<close> is not caught and leaves both loops.
\<close>

definition unlisted_body ::
  "env \<Rightarrow> string set \<Rightarrow> string list \<Rightarrow> string \<Rightarrow> tree \<times> string list \<Rightarrow>
   (tree \<times> string list) \<times> exn option" where
  "unlisted_body e retain_list root file st =
     (let name = fst (splitext file)
      in if name \<notin> retain_list then
           (case os_remove e (fst st) root file of
              Inl ex \<Rightarrow> (st, Some ex)
            | Inr t' \<Rightarrow> ((t', snd st @ [file]), None))
         else (st, None))"

definition delete_unlisted_images ::
  "env \<Rightarrow> tree \<Rightarrow> string set \<Rightarrow> tree \<times> (exn + string list)" where
  "delete_unlisted_images e t retain_list =
     (case for_loop (\<lambda>(root, dirs, files). for_loop (unlisted_body e retain_list root) files)
                    (walk [] t) (t, [])
      of ((t', deleted), Some ex) \<Rightarrow> (t', Inl ex)
       | ((t', deleted), None) \<Rightarrow> (t', Inr deleted))"

text \<open>
  \<open>check_and_delete_by_size\<close>: the state of the loops is the tree, the list
  \<open>deleted_by_size\<close> and the warnings shown so far.  The \<open>try\<close> block holds the opening
  of the image, the comparison and the removal; the handler catches every exception of
  the block and shows a warning.
\<close>

record size_state =
  cur_tree :: tree
  deleted_by_size :: "string list"
  warnings :: "string list"

definition folder_name_of :: "string list \<Rightarrow> string" where
  "folder_name_of root = hd (str_split os_sep (relpath root))"

definition size_line :: "string \<Rightarrow> int \<times> int \<Rightarrow> int \<times> int \<Rightarrow> string" where
  "size_line file expected_size actual_size =
     file @ '' | Expected: '' @ str_pair expected_size @ '', Actual: '' @ str_pair actual_size"

definition size_try ::
  "env \<Rightarrow> int \<Rightarrow> string list \<Rightarrow> (int \<times> int) option \<Rightarrow> string \<Rightarrow> size_state \<Rightarrow>
   size_state \<times> exn option" where
  "size_try e tolerance root expected_size file st =
     (case Image_open_size e (cur_tree st) root file of
        Inl ex \<Rightarrow> (st, Some ex)
      | Inr actual_size \<Rightarrow>
          (case expected_size of
             None \<Rightarrow> (st, None)
           | Some expected \<Rightarrow>
               if \<not> is_within_tolerance actual_size expected tolerance then
                 (case os_remove e (cur_tree st) root file of
                    Inl ex \<Rightarrow> (st, Some ex)
                  | Inr t' \<Rightarrow>
                      (st\<lparr>cur_tree := t',
                          deleted_by_size :=
                            deleted_by_size st @ [size_line file expected actual_size]\<rparr>,
                       None))
               else (st, None)))"

definition warning_text :: "string \<Rightarrow> string list \<Rightarrow> string \<Rightarrow> exn \<Rightarrow> string" where
  "warning_text base_dir root file ex =
     ''Could not open '' @ path_text base_dir root file @ '': '' @ str_exn ex"

definition size_body ::
  "env \<Rightarrow> string \<Rightarrow> int \<Rightarrow> string list \<Rightarrow> (int \<times> int) option \<Rightarrow> string \<Rightarrow> size_state \<Rightarrow>
   size_state \<times> exn option" where
  "size_body e base_dir tolerance root expected_size file st =
     (case size_try e tolerance root expected_size file st of
        (st', Some ex) \<Rightarrow>
          (st'\<lparr>warnings := warnings st' @ [warning_text base_dir root file ex]\<rparr>, None)
      | (st', None) \<Rightarrow> (st', None))"

definition check_and_delete_by_size ::
  "env \<Rightarrow> string \<Rightarrow> tree \<Rightarrow> int \<Rightarrow> size_state \<times> exn option" where
  "check_and_delete_by_size e base_dir t tolerance =
     for_loop (\<lambda>(root, dirs, files) st.
                 let folder_name = folder_name_of root;
                     expected_size = get_expected_size folder_name
                 in for_loop (size_body e base_dir tolerance root expected_size) files st)
              (walk [] t)
              \<lparr>cur_tree = t, deleted_by_size = [], warnings = []\<rparr>"

section \<open>Extraction and rebuilding of the archive\<close>

text \<open>
  What is found at the path \<open>extract_to\<close>: nothing, a regular file, or a directory.
\<close>

datatype node = Absent | Regular string | Folder tree

text \<open>
  An archive is the list of its members, each a name and its bytes, in the order of the
  archive; \<open>ZipFile\<close> has already accepted the file, so a corrupt archive is not a value
  of this type.  A member is a directory when its name ends with a slash.  On extraction
  the name is cut at the slashes and the empty, \<open>.\<close> and \<open>..\<close> components are dropped.
\<close>

definition is_dir_name :: "string \<Rightarrow> bool" where
  "is_dir_name n = (n \<noteq> [] \<and> last n = CHR ''/'')"

definition arcname_parts :: "string \<Rightarrow> string list" where
  "arcname_parts n =
     filter (\<lambda>x. x \<noteq> [] \<and> x \<noteq> ''.'' \<and> x \<noteq> ''..'') (str_split CHR ''/'' n)"

text \<open>
  Creating the directories of a path and writing a file below them.  A name that is a file
  cannot be entered as a directory, and a name that is a directory cannot be opened for
  writing; the operating system raises, and so does the model.  The tree that a failed
  extraction leaves behind is not kept: the exception ends \<open>extract_zip\<close>.
\<close>

definition subdir_or_new :: "(string \<times> tree) list \<Rightarrow> string \<Rightarrow> tree" where
  "subdir_or_new ds d = (case map_of ds d of None \<Rightarrow> Dir [] [] | Some t \<Rightarrow> t)"

fun put_dir :: "string list \<Rightarrow> tree \<Rightarrow> exn + tree" where
  "put_dir [] t = Inr t"
| "put_dir (d # p) (Dir fs ds) =
     (if d \<in> fst ` set fs then Inl (OSError ''File exists'')
      else (case put_dir p (subdir_or_new ds d) of
              Inl ex \<Rightarrow> Inl ex
            | Inr t' \<Rightarrow> Inr (Dir fs (AList.update d t' ds))))"

fun put_file :: "string list \<Rightarrow> string \<Rightarrow> string \<Rightarrow> tree \<Rightarrow> exn + tree" where
  "put_file [] f bytes (Dir fs ds) =
     (if f \<in> fst ` set ds then Inl (OSError ''Is a directory'')
      else Inr (Dir (AList.update f bytes fs) ds))"
| "put_file (d # p) f bytes (Dir fs ds) =
     (if d \<in> fst ` set fs then Inl (OSError ''Not a directory'')
      else (case put_file p f bytes (subdir_or_new ds d) of
              Inl ex \<Rightarrow> Inl ex
            | Inr t' \<Rightarrow> Inr (Dir fs (AList.update d t' ds))))"

text \<open>
  The extraction of one member, as \<open>extractall\<close> does it for each member in turn.  A
  member whose name has no component left stands for the path \<open>extract_to\<close> itself.
\<close>

definition extract_member :: "node \<Rightarrow> string \<times> string \<Rightarrow> exn + node" where
  "extract_member nd member =
     (let arcname = arcname_parts (fst member)
      in if arcname = [] then
           (if is_dir_name (fst member) then
              (case nd of
                 Absent \<Rightarrow> Inr (Folder (Dir [] []))
               | Regular old \<Rightarrow> Inl (OSError ''File exists'')
               | Folder t \<Rightarrow> Inr (Folder t))
            else
              (case nd of
                 Folder t \<Rightarrow> Inl (OSError ''Is a directory'')
               | _ \<Rightarrow> Inr (Regular (snd member))))
         else
           (case nd of
              Regular old \<Rightarrow> Inl (OSError ''Not a directory'')
            | _ \<Rightarrow>
                (let t = (case nd of Folder t \<Rightarrow> t | _ \<Rightarrow> Dir [] [])
                 in case (if is_dir_name (fst member) then put_dir arcname t
                          else put_file (butlast arcname) (last arcname) (snd member) t)
                    of Inl ex \<Rightarrow> Inl ex
                     | Inr t' \<Rightarrow> Inr (Folder t'))))"

fun extractall :: "(string \<times> string) list \<Rightarrow> node \<Rightarrow> exn + node" where
  "extractall [] nd = Inr nd"
| "extractall (member # members) nd =
     (case extract_member nd member of
        Inl ex \<Rightarrow> Inl ex
      | Inr nd' \<Rightarrow> extractall members nd')"

text \<open>
  \<open>extract_zip\<close>: an existing \<open>extract_to\<close> is removed first (\<open>shutil.rmtree\<close> raises
  on a regular file), then all members are extracted.
\<close>

definition extract_zip :: "(string \<times> string) list \<Rightarrow> node \<Rightarrow> exn + node" where
  "extract_zip zip_file extract_to =
     (case extract_to of
        Regular old \<Rightarrow> Inl (OSError ''Not a directory'')
      | _ \<Rightarrow> extractall zip_file Absent)"

text \<open>
  \<open>create_zip_from_folder\<close>: every file that the walk reports is written under its path
  relative to the folder; the state of the loops is the list of members written so far.
\<close>

definition zip_write ::
  "tree \<Rightarrow> string list \<Rightarrow> string \<Rightarrow> (string \<times> string) list \<Rightarrow> (string \<times> string) list \<times> exn option" where
  "zip_write t root file zipf =
     (case read_file t root file of
        None \<Rightarrow> (zipf, Some (OSError ''No such file or directory''))
      | Some bytes \<Rightarrow> (zipf @ [(str_join os_sep (root @ [file]), bytes)], None))"

definition create_zip_from_folder :: "node \<Rightarrow> (string \<times> string) list \<times> exn option" where
  "create_zip_from_folder folder_path =
     (case folder_path of
        Folder t \<Rightarrow>
          for_loop (\<lambda>(root, dirs, files). for_loop (zip_write t root) files) (walk [] t) []
      | _ \<Rightarrow> ([], None))"

section \<open>Auxiliary notions for the proofs\<close>

text \<open>
  The files that the walk reports, as pairs of directory path and file name, in the order
  in which the two nested loops of the source visit them.
\<close>

definition walk_files :: "string list \<Rightarrow> tree \<Rightarrow> (string list \<times> string) list" where
  "walk_files pre t = concat (map (\<lambda>(root, dirs, files). map (Pair root) files) (walk pre t))"

text \<open>
  What the body of the size loop does with one file, read off a given tree: it keeps the
  file silently, or removes it and records a line, or shows a warning.
\<close>

datatype verdict = Keep | Delete string | Warn exn

definition size_verdict :: "env \<Rightarrow> int \<Rightarrow> tree \<Rightarrow> string list \<Rightarrow> string \<Rightarrow> verdict" where
  "size_verdict e tolerance t root file =
     (case read_file t root file of
        None \<Rightarrow> Warn (OSError ''No such file or directory'')
      | Some bytes \<Rightarrow>
          (case decode e bytes of
             Inl ex \<Rightarrow> Warn ex
           | Inr actual \<Rightarrow>
               (case get_expected_size (folder_name_of root) of
                  None \<Rightarrow> Keep
                | Some expected \<Rightarrow>
                    if is_within_tolerance actual expected tolerance then Keep
                    else (case remove_refused e (root, file) of
                            Some m \<Rightarrow> Warn (OSError m)
                          | None \<Rightarrow> Delete (size_line file expected actual)))))"

fun verdict_removes :: "verdict \<Rightarrow> bool" where
  "verdict_removes (Delete l) = True"
| "verdict_removes v = False"

fun verdict_lines :: "verdict \<Rightarrow> string list" where
  "verdict_lines (Delete l) = [l]"
| "verdict_lines v = []"

fun verdict_warnings :: "string \<Rightarrow> string list \<Rightarrow> string \<Rightarrow> verdict \<Rightarrow> string list" where
  "verdict_warnings base_dir root file (Warn ex) = [warning_text base_dir root file ex]"
| "verdict_warnings base_dir root file v = []"

text \<open>The tree that the size pass leaves.\<close>

abbreviation size_pass_tree :: "env \<Rightarrow> string \<Rightarrow> tree \<Rightarrow> int \<Rightarrow> tree" where
  "size_pass_tree e base_dir t tolerance \<equiv>
     cur_tree (fst (check_and_delete_by_size e base_dir t tolerance))"

text \<open>
  What the loops of \<open>delete_unlisted_images\<close> do on a list of files that all exist: the
  files removed, in order, and the exception that ended the loops, if any.
\<close>

fun unlisted_plan ::
  "env \<Rightarrow> string set \<Rightarrow> (string list \<times> string) list \<Rightarrow> (string list \<times> string) list \<times> exn option" where
  "unlisted_plan e retain_list [] = ([], None)"
| "unlisted_plan e retain_list (x # xs) =
     (if fst (splitext (snd x)) \<in> retain_list then unlisted_plan e retain_list xs
      else (case remove_refused e x of
              Some m \<Rightarrow> ([], Some (OSError m))
            | None \<Rightarrow> (x # fst (unlisted_plan e retain_list xs),
                       snd (unlisted_plan e retain_list xs))))"

text \<open>
  Notions for the round trip: member names whose components are all kept by the
  extraction, the members that are files, what can be read at a node, and the path under
  which a member is extracted.
\<close>

definition plain_name :: "string \<Rightarrow> bool" where
  "plain_name n = (\<forall>x \<in> set (str_split CHR ''/'' n). x \<noteq> [] \<and> x \<noteq> ''.'' \<and> x \<noteq> ''..'')"

definition file_members :: "(string \<times> string) list \<Rightarrow> (string \<times> string) list" where
  "file_members a = filter (\<lambda>m. \<not> is_dir_name (fst m)) a"

fun node_read :: "node \<Rightarrow> string list \<Rightarrow> string \<Rightarrow> string option" where
  "node_read (Folder t) q g = read_file t q g"
| "node_read nd q g = None"

fun node_ok :: "node \<Rightarrow> bool" where
  "node_ok (Folder t) = wf_tree t"
| "node_ok Absent = True"
| "node_ok (Regular old) = False"

definition member_key :: "string \<times> string \<Rightarrow> string list \<times> string" where
  "member_key m = (butlast (arcname_parts (fst m)), last (arcname_parts (fst m)))"

definition node_map :: "node \<Rightarrow> (string list \<times> string) \<Rightarrow> string option" where
  "node_map nd = (\<lambda>k. node_read nd (fst k) (snd k))"

definition file_alist :: "(string \<times> string) list \<Rightarrow> ((string list \<times> string) \<times> string) list" where
  "file_alist a = map (\<lambda>m. (member_key m, snd m)) (file_members a)"

section \<open>Sample inputs\<close>

text \<open>
  Every image of the sample decodes to 101 by 199 pixels, except the files whose bytes are
  \<open>corrupt\<close>; the removal of \<open>locked.png\<close> is refused.
\<close>

definition example_env :: env where
  "example_env =
     \<lparr>decode = (\<lambda>bytes. if bytes = ''corrupt''
                         then Inl (UnidentifiedImageError ''cannot identify image file'')
                         else Inr (101, 199)),
      remove_refused = (\<lambda>p. if snd p = ''locked.png'' then Some ''Permission denied'' else None)\<rparr>"

definition example_tree :: tree where
  "example_tree =
     Dir [(''root.png'', ''r'')]
         [(''100x200'',
             Dir [(''a.png'', ''a''), (''bad.png'', ''corrupt''), (''locked.png'', ''l'')]
                 [(''5x5'', Dir [(''n.png'', ''n'')] [])]),
          (''misc'', Dir [(''m.png'', ''corrupt''), (''k.png'', ''k'')] [])]"

text \<open>
  Two sample archives: one with a directory member, a name that starts with \<open>./\<close> and a
  name that occurs twice; one whose file members have plain, distinct names.
\<close>

definition mixed_archive :: "(string \<times> string) list" where
  "mixed_archive =
     [(''imgs/'', ''''), (''./a.png'', ''A''), (''b.png'', ''1''), (''b.png'', ''2'')]"

definition plain_archive :: "(string \<times> string) list" where
  "plain_archive =
     [(''imgs/'', ''''), (''imgs/a.png'', ''A''), (''imgs/100x200/b.png'', ''B''),
      (''empty/'', ''''), (''c.png'', ''C'')]"

section \<open>Strings and folder names\<close>

lemma str_split_not_Nil: "str_split c s \<noteq> []"
  by (induction s) (auto split: list.splits)

lemma str_split_no_sep: "c \<notin> set s \<Longrightarrow> str_split c s = [s]"
  by (induction s) auto

lemma str_split_at_sep: "c \<notin> set p \<Longrightarrow> str_split c (p @ c # r) = p # str_split c r"
  by (induction p) auto

lemma hd_split_join: "c \<notin> set d \<Longrightarrow> hd (str_split c (str_join c (d # ds))) = d"
  by (cases ds) (simp_all add: str_split_no_sep str_split_at_sep)

lemma folder_name_of_root: "folder_name_of [] = ''.''"
  by (simp add: folder_name_of_def relpath_def os_sep_def)

lemma folder_name_of_Cons: "os_sep \<notin> set d \<Longrightarrow> folder_name_of (d # ds) = d"
  by (simp add: folder_name_of_def relpath_def hd_split_join)

lemma get_expected_size_dot: "get_expected_size ''.'' = None"
  by (simp add: get_expected_size_def lower_def lower_char_def)

section \<open>Reading and removing in the tree\<close>

lemma map_of_filter_fst:
  "map_of (filter (\<lambda>x. fst x \<noteq> f) fs) g = (if g = f then None else map_of fs g)"
  by (induction fs) auto

lemma map_of_map_upd:
  "map_of (map (\<lambda>x. if fst x = d then (fst x, h (snd x)) else x) ds) k =
     (if k = d then map_option h (map_of ds d) else map_of ds k)"
  by (induction ds) auto

lemma map_of_SomeD_snd: "map_of ds d = Some t \<Longrightarrow> \<exists>x \<in> set ds. fst x = d \<and> snd x = t"
  by (induction ds) (auto split: if_splits)

lemma read_remove:
  "read_file (remove_file p f t) q g = (if q = p \<and> g = f then None else read_file t q g)"
proof (induction p f t arbitrary: q rule: remove_file.induct)
  case (1 f fs ds)
  then show ?case by (cases q) (simp_all add: map_of_filter_fst)
next
  case (2 d p f fs ds)
  show ?case
  proof (cases q)
    case Nil
    then show ?thesis by simp
  next
    case (Cons d' q')
    show ?thesis
    proof (cases "d' = d")
      case False
      with Cons show ?thesis by (simp add: map_of_map_upd)
    next
      case True
      show ?thesis
      proof (cases "map_of ds d")
        case None
        with Cons True show ?thesis by (simp add: map_of_map_upd)
      next
        case (Some t')
        then obtain x where x: "x \<in> set ds" "fst x = d" "snd x = t'"
          using map_of_SomeD_snd by fastforce
        from 2[OF x(1) x(2), of q'] x(3)
        have "read_file (remove_file p f t') q' g = (if q' = p \<and> g = f then None else read_file t' q' g)"
          by simp
        with Cons True Some show ?thesis by (simp add: map_of_map_upd)
      qed
    qed
  qed
qed

lemma map_fst_upd:
  "map fst (map (\<lambda>x. if fst x = d then (fst x, h (snd x)) else x) ds) = map fst ds"
  by (induction ds) auto

lemma wf_remove: "wf_tree t \<Longrightarrow> wf_tree (remove_file p f t)"
proof (induction p f t rule: remove_file.induct)
  case (1 f fls ds)
  have "distinct (map fst (filter (\<lambda>x. fst x \<noteq> f) fls))"
    using 1 by (simp add: distinct_map_filter)
  moreover have "set (map fst (filter (\<lambda>x. fst x \<noteq> f) fls)) \<subseteq> set (map fst fls)"
    by auto
  ultimately show ?case using 1 by auto
next
  case (2 d p f fls ds)
  let ?ds = "map (\<lambda>x. if fst x = d then (fst x, remove_file p f (snd x)) else x) ds"
  have sub: "\<forall>x \<in> set ds. wf_tree (snd x)" using 2(2) by simp
  have "\<And>y. y \<in> set ?ds \<Longrightarrow> wf_tree (snd y)"
  proof -
    fix y assume "y \<in> set ?ds"
    then obtain x where x: "x \<in> set ds" "y = (if fst x = d then (fst x, remove_file p f (snd x)) else x)"
      unfolding set_map by blast
    show "wf_tree (snd y)"
    proof (cases "fst x = d")
      case True
      with x sub 2(1)[OF x(1) True] show ?thesis by simp
    next
      case False
      with x sub show ?thesis by simp
    qed
  qed
  then have "\<forall>y \<in> set ?ds. wf_tree (snd y)" by blast
  moreover have "distinct (map fst fls @ map fst ?ds)"
    unfolding map_fst_upd using 2(2) by simp
  moreover have "\<forall>n \<in> set (map fst fls @ map fst ?ds). valid_name n"
    unfolding map_fst_upd using 2(2) by simp
  ultimately show ?case unfolding remove_file.simps wf_tree.simps by blast
qed

section \<open>The files reported by the walk\<close>

lemma concat_map_concat: "concat (map f (concat xss)) = concat (map (\<lambda>xs. concat (map f xs)) xss)"
  by (induction xss) auto

lemma walk_files_Dir:
  "walk_files pre (Dir fls ds) =
     map (Pair pre) (map fst fls) @ concat (map (\<lambda>x. walk_files (pre @ [fst x]) (snd x)) ds)"
  by (simp add: walk_files_def concat_map_concat o_def)

lemma walk_files_prefix:
  "(r, f) \<in> set (walk_files pre t) \<Longrightarrow> \<exists>p. r = pre @ p"
proof (induction pre t rule: walk.induct)
  case (1 root fls ds)
  from 1(2) have "r = root \<or> (\<exists>x \<in> set ds. (r, f) \<in> set (walk_files (root @ [fst x]) (snd x)))"
    by (auto simp: walk_files_Dir)
  then show ?case
  proof
    assume "r = root" then show ?thesis by simp
  next
    assume "\<exists>x \<in> set ds. (r, f) \<in> set (walk_files (root @ [fst x]) (snd x))"
    then obtain x where x: "x \<in> set ds" "(r, f) \<in> set (walk_files (root @ [fst x]) (snd x))" by blast
    from 1(1)[OF x] obtain p where "r = (root @ [fst x]) @ p" by blast
    then show ?thesis by simp
  qed
qed

lemma walk_files_sub_prefix:
  "(r, f) \<in> set (walk_files (pre @ [d]) t) \<Longrightarrow> \<exists>p. r = pre @ d # p"
  using walk_files_prefix[of r f "pre @ [d]" t] by simp

lemma map_of_eq_Some_distinct:
  "distinct (map fst ds) \<Longrightarrow> (map_of ds d = Some t) = ((d, t) \<in> set ds)"
  by simp

lemma walk_files_iff:
  "wf_tree t \<Longrightarrow> ((pre @ p, f) \<in> set (walk_files pre t)) = (read_file t p f \<noteq> None)"
proof (induction pre t arbitrary: p rule: walk.induct)
  case (1 root fls ds)
  have dist: "distinct (map fst ds)" using 1(2) by simp
  show ?case
  proof (cases p)
    case Nil
    have "\<not> (\<exists>x \<in> set ds. (root, f) \<in> set (walk_files (root @ [fst x]) (snd x)))"
      using walk_files_sub_prefix by fastforce
    then have "((root, f) \<in> set (walk_files root (Dir fls ds))) = (f \<in> fst ` set fls)"
      by (auto simp: walk_files_Dir)
    also have "\<dots> = (map_of fls f \<noteq> None)"
      by (simp add: map_of_eq_None_iff)
    finally show ?thesis using Nil by simp
  next
    case (Cons d q)
    have "((root @ d # q, f) \<in> set (walk_files root (Dir fls ds))) =
          (\<exists>x \<in> set ds. (root @ d # q, f) \<in> set (walk_files (root @ [fst x]) (snd x)))"
      by (auto simp: walk_files_Dir)
    also have "\<dots> = (\<exists>x \<in> set ds. fst x = d \<and> ((root @ [fst x]) @ q, f) \<in> set (walk_files (root @ [fst x]) (snd x)))"
      using walk_files_sub_prefix by fastforce
    also have "\<dots> = (\<exists>x \<in> set ds. fst x = d \<and> read_file (snd x) q f \<noteq> None)"
      using 1(1) 1(2) by simp
    also have "\<dots> = (\<exists>t. map_of ds d = Some t \<and> read_file t q f \<noteq> None)"
      using dist by (simp add: map_of_eq_Some_distinct) force
    also have "\<dots> = (read_file (Dir fls ds) (d # q) f \<noteq> None)"
      by (auto split: option.splits)
    finally show ?thesis using Cons by simp
  qed
qed

lemma distinct_concat_tagged:
  assumes "distinct (map fst ds)"
    and "\<And>x. x \<in> set ds \<Longrightarrow> distinct (g x)"
    and "\<And>x y. x \<in> set ds \<Longrightarrow> y \<in> set (g x) \<Longrightarrow> tag y = fst x"
  shows "distinct (concat (map g ds))"
  using assms
proof (induction ds)
  case Nil
  then show ?case by simp
next
  case (Cons x ds)
  have "\<And>y. y \<in> set (g x) \<Longrightarrow> y \<notin> set (concat (map g ds))"
  proof
    fix y assume y: "y \<in> set (g x)" "y \<in> set (concat (map g ds))"
    then obtain z where z: "z \<in> set ds" "y \<in> set (g z)" by auto
    have "tag y = fst x" using Cons.prems(3)[of x y] y by simp
    moreover have "tag y = fst z" using Cons.prems(3)[of z y] z by simp
    ultimately have "fst x = fst z" by simp
    moreover have "fst z \<in> fst ` set ds" using z(1) by simp
    ultimately show False using Cons.prems(1) by simp
  qed
  moreover have "distinct (concat (map g ds))"
    using Cons by simp
  moreover have "distinct (g x)" using Cons.prems(2) by simp
  ultimately show ?case by auto
qed

lemma distinct_walk_files: "wf_tree t \<Longrightarrow> distinct (walk_files pre t)"
proof (induction pre t rule: walk.induct)
  case (1 root fls ds)
  have a: "distinct (map (Pair root) (map fst fls))"
    using 1(2) by (simp add: distinct_map inj_on_def)
  have b: "distinct (concat (map (\<lambda>x. walk_files (root @ [fst x]) (snd x)) ds))"
  proof (rule distinct_concat_tagged[where tag = "\<lambda>y. fst y ! length root"])
    show "distinct (map fst ds)" using 1(2) by simp
  next
    fix x assume "x \<in> set ds"
    then show "distinct (walk_files (root @ [fst x]) (snd x))" using 1 by simp
  next
    fix x y assume "x \<in> set ds" "y \<in> set (walk_files (root @ [fst x]) (snd x))"
    then obtain p where "fst y = root @ fst x # p"
      using walk_files_sub_prefix[of "fst y" "snd y" root "fst x" "snd x"] by auto
    then show "fst y ! length root = fst x" by simp
  qed
  have c: "set (map (Pair root) (map fst fls)) \<inter> set (concat (map (\<lambda>x. walk_files (root @ [fst x]) (snd x)) ds)) = {}"
    using walk_files_sub_prefix by fastforce
  show ?case using a b c by (simp only: walk_files_Dir distinct_append)
qed

lemma walk_files_remove:
  "walk_files pre (remove_file p f t) = filter (\<lambda>x. x \<noteq> (pre @ p, f)) (walk_files pre t)"
proof (induction p f t arbitrary: pre rule: remove_file.induct)
  case (1 f fls ds)
  have "filter (\<lambda>x. x \<noteq> (pre, f)) (map (Pair pre) (map fst fls)) = map (Pair pre) (map fst (filter (\<lambda>x. fst x \<noteq> f) fls))"
    by (induction fls) auto
  moreover have "filter (\<lambda>x. x \<noteq> (pre, f)) (concat (map (\<lambda>x. walk_files (pre @ [fst x]) (snd x)) ds))
      = concat (map (\<lambda>x. walk_files (pre @ [fst x]) (snd x)) ds)"
    using walk_files_sub_prefix by (fastforce simp: filter_id_conv)
  ultimately show ?case by (simp add: walk_files_Dir)
next
  case (2 d p f fls ds)
  let ?P = "\<lambda>x. x \<noteq> (pre @ d # p, f)"
  have h: "filter ?P (map (Pair pre) (map fst fls)) = map (Pair pre) (map fst fls)"
    by (simp add: filter_id_conv)
  have "\<And>x. x \<in> set ds \<Longrightarrow>
      walk_files (pre @ [fst (if fst x = d then (fst x, remove_file p f (snd x)) else x)])
                 (snd (if fst x = d then (fst x, remove_file p f (snd x)) else x))
      = filter ?P (walk_files (pre @ [fst x]) (snd x))"
  proof -
    fix x assume x: "x \<in> set ds"
    show "walk_files (pre @ [fst (if fst x = d then (fst x, remove_file p f (snd x)) else x)])
                 (snd (if fst x = d then (fst x, remove_file p f (snd x)) else x))
      = filter ?P (walk_files (pre @ [fst x]) (snd x))"
    proof (cases "fst x = d")
      case True
      then show ?thesis using 2[OF x True, of "pre @ [d]"] by simp
    next
      case False
      have "filter ?P (walk_files (pre @ [fst x]) (snd x)) = walk_files (pre @ [fst x]) (snd x)"
        using walk_files_sub_prefix False by (fastforce simp: filter_id_conv)
      with False show ?thesis by simp
    qed
  qed
  then have "concat (map (\<lambda>x. walk_files (pre @ [fst x]) (snd x)) (map (\<lambda>x. if fst x = d then (fst x, remove_file p f (snd x)) else x) ds))
      = filter ?P (concat (map (\<lambda>x. walk_files (pre @ [fst x]) (snd x)) ds))"
    by (simp add: filter_concat o_def cong: map_cong)
  with h show ?case by (simp add: walk_files_Dir)
qed

section \<open>The loops\<close>

lemma for_loop_append:
  "for_loop b (xs @ ys) s =
     (case for_loop b xs s of (s', Some e) \<Rightarrow> (s', Some e) | (s', None) \<Rightarrow> for_loop b ys s')"
  by (induction xs arbitrary: s) (auto split: prod.splits option.splits)

lemma for_loop_map: "for_loop b (map g xs) s = for_loop (\<lambda>x. b (g x)) xs s"
  by (induction xs arbitrary: s) (auto split: prod.splits option.splits)

lemma for_loop_walk:
  "for_loop (\<lambda>(root, dirs, files). for_loop (body root) files) w s =
   for_loop (\<lambda>(root, file). body root file)
            (concat (map (\<lambda>(root, dirs, files). map (Pair root) files) w)) s"
proof (induction w arbitrary: s)
  case Nil
  then show ?case by simp
next
  case (Cons x w)
  obtain root dirs files where x: "x = (root, dirs, files)" by (cases x)
  show ?case
    by (simp add: x for_loop_append for_loop_map Cons split: prod.splits option.splits)
qed

lemma size_body_verdict:
  "size_body e base_dir tolerance root (get_expected_size (folder_name_of root)) file st =
     (case size_verdict e tolerance (cur_tree st) root file of
        Keep \<Rightarrow> (st, None)
      | Delete l \<Rightarrow>
          (st\<lparr>cur_tree := remove_file root file (cur_tree st),
              deleted_by_size := deleted_by_size st @ [l]\<rparr>, None)
      | Warn ex \<Rightarrow> (st\<lparr>warnings := warnings st @ [warning_text base_dir root file ex]\<rparr>, None))"
  by (simp add: size_body_def size_try_def size_verdict_def Image_open_size_def os_remove_def
           split: option.splits sum.splits)

lemma size_verdict_remove:
  "(q, g) \<noteq> (r, f) \<Longrightarrow>
   size_verdict e tolerance (remove_file r f t) q g = size_verdict e tolerance t q g"
  by (auto simp add: size_verdict_def read_remove)

lemma read_fold_remove:
  "read_file (fold (\<lambda>(r, f). remove_file r f) ds t) q g =
     (if (q, g) \<in> set ds then None else read_file t q g)"
proof (induction ds arbitrary: t)
  case Nil
  then show ?case by simp
next
  case (Cons x ds)
  obtain r f where x: "x = (r, f)" by (cases x)
  have "read_file (fold (\<lambda>(r, f). remove_file r f) (x # ds) t) q g =
        read_file (fold (\<lambda>(r, f). remove_file r f) ds (remove_file r f t)) q g"
    by (simp add: x)
  also have "\<dots> = (if (q, g) \<in> set ds then None else read_file (remove_file r f t) q g)"
    by (rule Cons.IH)
  also have "\<dots> = (if (q, g) \<in> set (x # ds) then None else read_file t q g)"
    by (auto simp: x read_remove)
  finally show ?case .
qed

lemma size_loop:
  "distinct xs \<Longrightarrow>
   for_loop (\<lambda>(root, file).
               size_body e base_dir tolerance root (get_expected_size (folder_name_of root)) file)
            xs st =
     (st\<lparr>cur_tree :=
           fold (\<lambda>(r, f). remove_file r f)
                (filter (\<lambda>(r, f). verdict_removes (size_verdict e tolerance (cur_tree st) r f)) xs)
                (cur_tree st),
         deleted_by_size :=
           deleted_by_size st @
           concat (map (\<lambda>(r, f). verdict_lines (size_verdict e tolerance (cur_tree st) r f)) xs),
         warnings :=
           warnings st @
           concat (map (\<lambda>(r, f). verdict_warnings base_dir r f
                                    (size_verdict e tolerance (cur_tree st) r f)) xs)\<rparr>,
      None)"
proof (induction xs arbitrary: st)
  case Nil
  then show ?case by simp
next
  case (Cons x xs)
  obtain r f where x: "x = (r, f)" by (cases x)
  have dist: "distinct xs" and notin: "(r, f) \<notin> set xs" using Cons.prems x by auto
  let ?t = "cur_tree st"
  show ?case
  proof (cases "size_verdict e tolerance ?t r f")
    case Keep
    then show ?thesis using Cons.IH[OF dist, of st] by (simp add: x size_body_verdict)
  next
    case (Warn ex)
    then show ?thesis
      using Cons.IH[OF dist, of "st\<lparr>warnings := warnings st @ [warning_text base_dir r f ex]\<rparr>"]
      by (simp add: x size_body_verdict)
  next
    case (Delete l)
    let ?t' = "remove_file r f ?t"
    have same: "\<And>a b. (a, b) \<in> set xs \<Longrightarrow>
        size_verdict e tolerance ?t' a b = size_verdict e tolerance ?t a b"
    proof -
      fix a b assume "(a, b) \<in> set xs"
      with notin have "(a, b) \<noteq> (r, f)" by blast
      then show "size_verdict e tolerance ?t' a b = size_verdict e tolerance ?t a b"
        by (rule size_verdict_remove)
    qed
    have f1: "filter (\<lambda>(r, f). verdict_removes (size_verdict e tolerance ?t' r f)) xs
            = filter (\<lambda>(r, f). verdict_removes (size_verdict e tolerance ?t r f)) xs"
      by (rule filter_cong) (auto simp: same)
    have f2: "map (\<lambda>(r, f). verdict_lines (size_verdict e tolerance ?t' r f)) xs
            = map (\<lambda>(r, f). verdict_lines (size_verdict e tolerance ?t r f)) xs"
      by (rule map_cong) (auto simp: same)
    have f3: "map (\<lambda>(r, f). verdict_warnings base_dir r f (size_verdict e tolerance ?t' r f)) xs
            = map (\<lambda>(r, f). verdict_warnings base_dir r f (size_verdict e tolerance ?t r f)) xs"
      by (rule map_cong) (auto simp: same)
    show ?thesis
      using Cons.IH[OF dist, of "st\<lparr>cur_tree := ?t', deleted_by_size := deleted_by_size st @ [l]\<rparr>"]
      by (simp add: x size_body_verdict Delete f1 f2 f3)
  qed
qed

lemma size_pass_char:
  assumes "wf_tree t"
  shows "check_and_delete_by_size e base_dir t tolerance =
     (\<lparr>cur_tree =
          fold (\<lambda>(r, f). remove_file r f)
               (filter (\<lambda>(r, f). verdict_removes (size_verdict e tolerance t r f)) (walk_files [] t)) t,
        deleted_by_size =
          concat (map (\<lambda>(r, f). verdict_lines (size_verdict e tolerance t r f)) (walk_files [] t)),
        warnings =
          concat (map (\<lambda>(r, f). verdict_warnings base_dir r f (size_verdict e tolerance t r f))
                      (walk_files [] t))\<rparr>,
      None)"
proof -
  have "check_and_delete_by_size e base_dir t tolerance =
        for_loop (\<lambda>(root, file).
               size_body e base_dir tolerance root (get_expected_size (folder_name_of root)) file)
            (walk_files [] t) \<lparr>cur_tree = t, deleted_by_size = [], warnings = []\<rparr>"
    unfolding check_and_delete_by_size_def walk_files_def Let_def
    by (rule for_loop_walk)
  also have "\<dots> = (\<lparr>cur_tree =
          fold (\<lambda>(r, f). remove_file r f)
               (filter (\<lambda>(r, f). verdict_removes (size_verdict e tolerance t r f)) (walk_files [] t)) t,
        deleted_by_size =
          concat (map (\<lambda>(r, f). verdict_lines (size_verdict e tolerance t r f)) (walk_files [] t)),
        warnings =
          concat (map (\<lambda>(r, f). verdict_warnings base_dir r f (size_verdict e tolerance t r f))
                      (walk_files [] t))\<rparr>,
      None)"
    using size_loop[OF distinct_walk_files[OF assms, of "[]"], of e base_dir tolerance
                    "\<lparr>cur_tree = t, deleted_by_size = [], warnings = []\<rparr>"]
    by simp
  finally show ?thesis .
qed

lemma size_pass_read:
  assumes "wf_tree t"
  shows "read_file (cur_tree (fst (check_and_delete_by_size e base_dir t tolerance))) q g =
     (if verdict_removes (size_verdict e tolerance t q g) then None else read_file t q g)"
proof -
  have "verdict_removes (size_verdict e tolerance t q g) \<Longrightarrow> read_file t q g \<noteq> None"
    by (auto simp: size_verdict_def split: option.splits)
  then have "verdict_removes (size_verdict e tolerance t q g) \<Longrightarrow> (q, g) \<in> set (walk_files [] t)"
    using walk_files_iff[OF assms, of "[]" q g] by simp
  then show ?thesis
    by (auto simp: size_pass_char[OF assms] read_fold_remove)
qed

lemma size_pass_warnings:
  assumes "wf_tree t" and "read_file t q g \<noteq> None" and "size_verdict e tolerance t q g = Warn ex"
  shows "warning_text base_dir q g ex \<in> set (warnings (fst (check_and_delete_by_size e base_dir t tolerance)))"
proof -
  have "(q, g) \<in> set (walk_files [] t)"
    using walk_files_iff[OF assms(1), of "[]" q g] assms(2) by simp
  then show ?thesis
    using assms(3) by (force simp: size_pass_char[OF assms(1)])
qed

lemma size_pass_returns:
  "wf_tree t \<Longrightarrow> snd (check_and_delete_by_size e base_dir t tolerance) = None"
  by (simp add: size_pass_char)

lemma read_file_valid_dir:
  "wf_tree t \<Longrightarrow> read_file t (d # ds) f = Some b \<Longrightarrow> valid_name d"
proof (cases t)
  case (Dir fls sub)
  assume wf: "wf_tree t" and rd: "read_file t (d # ds) f = Some b"
  from rd Dir obtain t' where "map_of sub d = Some t'" by (auto split: option.splits)
  then have "d \<in> fst ` set sub" by (metis map_of_eq_None_iff option.distinct(1))
  with wf Dir show ?thesis by auto
qed

lemma folder_name_of_file:
  "wf_tree t \<Longrightarrow> read_file t (d # ds) f = Some b \<Longrightarrow> folder_name_of (d # ds) = d"
  using read_file_valid_dir[of t d ds f b] by (simp add: folder_name_of_Cons valid_name_def)

lemma size_100x200: "get_expected_size ''100x200'' = Some (100, 200)"
  by code_simp


section \<open>Verdicts of the size pass\<close>

lemma concat_map_filter_skip:
  "(\<And>x. x \<in> set xs \<Longrightarrow> \<not> P x \<Longrightarrow> g x = []) \<Longrightarrow>
   concat (map g (filter P xs)) = concat (map g xs)"
  by (induction xs) auto

lemma size_verdict_expected_None:
  "get_expected_size (folder_name_of root) = None \<Longrightarrow>
   \<not> verdict_removes (size_verdict e tolerance t root file)"
  by (auto simp: size_verdict_def split: option.splits sum.splits)

lemma size_verdict_decode_fails:
  "read_file t root file = Some bytes \<Longrightarrow> decode e bytes = Inl ex \<Longrightarrow>
   size_verdict e tolerance t root file = Warn ex"
  by (simp add: size_verdict_def)

lemma get_expected_size_misc: "get_expected_size ''misc'' = None"
  by code_simp

section \<open>The names found by the reconciler\<close>

lemma fold_found_inner:
  "fold (\<lambda>file found. insert (g file) found) files S = S \<union> g ` set files"
  by (induction files arbitrary: S) auto

lemma fold_found_outer:
  fixes w :: "(string list \<times> string list \<times> string list) list"
  shows "fold (\<lambda>(root, dirs, files) found. fold (\<lambda>file found. insert (g file) found) files found) w S
     = S \<union> g ` snd ` set (concat (map (\<lambda>(root, dirs, files). map (Pair root) files) w))"
proof -
  define F where "F = (\<lambda>(root :: string list, dirs :: string list, files :: string list) found.
                         fold (\<lambda>file found. insert (g file) found) files found)"
  have step: "\<And>root dirs files S. F (root, dirs, files) S = S \<union> g ` set files"
    by (simp add: F_def fold_found_inner)
  have "fold F w S = S \<union> g ` snd ` set (concat (map (\<lambda>(root, dirs, files). map (Pair root) files) w))"
  proof (induction w arbitrary: S)
    case Nil
    then show ?case by simp
  next
    case (Cons x w)
    obtain root dirs files where x: "x = (root, dirs, files)" by (cases x)
    have h: "snd ` Pair root ` set files = set files" by force
    have "fold F (x # w) S = fold F w (S \<union> g ` set files)"
      by (simp add: x step)
    also have "\<dots> = (S \<union> g ` set files) \<union>
        g ` snd ` set (concat (map (\<lambda>(root, dirs, files). map (Pair root) files) w))"
      by (rule Cons.IH)
    also have "\<dots> = S \<union> g ` snd ` set (concat (map (\<lambda>(root, dirs, files). map (Pair root) files) (x # w)))"
      by (simp add: x h image_Un Un_assoc)
    finally show ?case .
  qed
  then show ?thesis by (simp only: F_def)
qed

lemma found_names_walk_files:
  "found_names t = (\<lambda>x. fst (splitext (snd x))) ` set (walk_files [] t)"
  unfolding found_names_def walk_files_def
  by (simp add: fold_found_outer image_image)

lemma found_names_iff:
  assumes "wf_tree t"
  shows "(n \<in> found_names t) =
         (\<exists>root file. read_file t root file \<noteq> None \<and> n = fst (splitext file))"
proof -
  have "(n \<in> found_names t) = (\<exists>x \<in> set (walk_files [] t). n = fst (splitext (snd x)))"
    by (auto simp: found_names_walk_files)
  also have "\<dots> = (\<exists>root file. (root, file) \<in> set (walk_files [] t) \<and> n = fst (splitext file))"
    by (metis prod.collapse snd_conv)
  also have "\<dots> = (\<exists>root file. read_file t root file \<noteq> None \<and> n = fst (splitext file))"
    using walk_files_iff[OF assms, of "[]"] by simp
  finally show ?thesis .
qed

section \<open>The loops of the delete-unlisted action\<close>

lemma wf_fold_remove:
  "wf_tree t \<Longrightarrow> wf_tree (fold (\<lambda>(r, f). remove_file r f) ds t)"
  by (induction ds arbitrary: t) (auto simp: wf_remove)

lemma walk_files_fold_remove:
  "walk_files pre (fold (\<lambda>(r, f). remove_file (drop (length pre) r) f) ds t) =
     filter (\<lambda>x. x \<notin> set ds) (walk_files pre t)"
  if "\<And>x. x \<in> set ds \<Longrightarrow> take (length pre) (fst x) = pre"
  using that
proof (induction ds arbitrary: t)
  case Nil
  then show ?case by simp
next
  case (Cons x ds)
  obtain r f where x: "x = (r, f)" by (cases x)
  have pre: "pre @ drop (length pre) r = r"
    using Cons.prems[of x] x by (metis append_take_drop_id fst_conv list.set_intros(1))
  have "walk_files pre (fold (\<lambda>(r, f). remove_file (drop (length pre) r) f) (x # ds) t) =
        filter (\<lambda>y. y \<notin> set ds) (walk_files pre (remove_file (drop (length pre) r) f t))"
    using Cons.IH[of "remove_file (drop (length pre) r) f t"] Cons.prems by (simp add: x)
  also have "\<dots> = filter (\<lambda>y. y \<notin> set ds) (filter (\<lambda>y. y \<noteq> (r, f)) (walk_files pre t))"
    by (simp add: walk_files_remove pre)
  also have "\<dots> = filter (\<lambda>y. y \<notin> set (x # ds)) (walk_files pre t)"
    by (auto simp: x intro: filter_cong)
  finally show ?case .
qed

lemma walk_files_fold_remove_root:
  "walk_files [] (fold (\<lambda>(r, f). remove_file r f) ds t) =
     filter (\<lambda>x. x \<notin> set ds) (walk_files [] t)"
  using walk_files_fold_remove[of ds "[]" t] by simp

lemma unlisted_body_listed:
  "fst (splitext file) \<in> retain_list \<Longrightarrow> unlisted_body e retain_list root file st = (st, None)"
  by (simp add: unlisted_body_def)

lemma unlisted_body_refused:
  "fst (splitext file) \<notin> retain_list \<Longrightarrow> read_file (fst st) root file \<noteq> None \<Longrightarrow>
   remove_refused e (root, file) = Some m \<Longrightarrow>
   unlisted_body e retain_list root file st = (st, Some (OSError m))"
  by (auto simp: unlisted_body_def os_remove_def)

lemma unlisted_body_removed:
  "fst (splitext file) \<notin> retain_list \<Longrightarrow> read_file (fst st) root file \<noteq> None \<Longrightarrow>
   remove_refused e (root, file) = None \<Longrightarrow>
   unlisted_body e retain_list root file st =
     ((remove_file root file (fst st), snd st @ [file]), None)"
  by (auto simp: unlisted_body_def os_remove_def)

lemma unlisted_loop:
  assumes "distinct xs"
    and "\<And>x. x \<in> set xs \<Longrightarrow> read_file t (fst x) (snd x) \<noteq> None"
  shows "for_loop (\<lambda>(root, file). unlisted_body e retain_list root file) xs (t, deleted) =
     ((fold (\<lambda>(r, f). remove_file r f) (fst (unlisted_plan e retain_list xs)) t,
       deleted @ map snd (fst (unlisted_plan e retain_list xs))),
      snd (unlisted_plan e retain_list xs))"
  using assms
proof (induction xs arbitrary: t deleted)
  case Nil
  then show ?case by simp
next
  case (Cons x xs)
  obtain r f where x: "x = (r, f)" by (cases x)
  have dist: "distinct xs" and notin: "(r, f) \<notin> set xs" using Cons.prems(1) x by auto
  have here: "read_file t r f \<noteq> None" using Cons.prems(2)[of x] x by simp
  have rest: "\<And>y. y \<in> set xs \<Longrightarrow> read_file t (fst y) (snd y) \<noteq> None"
    using Cons.prems(2) by simp
  show ?case
  proof (cases "fst (splitext f) \<in> retain_list")
    case True
    then show ?thesis
      using Cons.IH[OF dist rest] by (simp add: x unlisted_body_listed)
  next
    case False
    show ?thesis
    proof (cases "remove_refused e (r, f)")
      case (Some m)
      then show ?thesis
        using False here by (simp add: x unlisted_body_refused)
    next
      case None
      have rest': "\<And>y. y \<in> set xs \<Longrightarrow> read_file (remove_file r f t) (fst y) (snd y) \<noteq> None"
      proof -
        fix y assume y: "y \<in> set xs"
        with notin have "(fst y, snd y) \<noteq> (r, f)" by auto
        then show "read_file (remove_file r f t) (fst y) (snd y) \<noteq> None"
          using rest[OF y] by (auto simp: read_remove)
      qed
      show ?thesis
        using Cons.IH[OF dist rest'] False here None
        by (simp add: x unlisted_body_removed)
    qed
  qed
qed

lemma delete_unlisted_char:
  assumes "wf_tree t"
  shows "delete_unlisted_images e t retain_list =
     (fold (\<lambda>(r, f). remove_file r f) (fst (unlisted_plan e retain_list (walk_files [] t))) t,
      case snd (unlisted_plan e retain_list (walk_files [] t)) of
        None \<Rightarrow> Inr (map snd (fst (unlisted_plan e retain_list (walk_files [] t))))
      | Some ex \<Rightarrow> Inl ex)"
proof -
  have ex: "\<And>x. x \<in> set (walk_files [] t) \<Longrightarrow> read_file t (fst x) (snd x) \<noteq> None"
    using walk_files_iff[OF assms, of "[]"] by (metis append_Nil prod.collapse)
  have "for_loop (\<lambda>(root, dirs, files). for_loop (unlisted_body e retain_list root) files)
                    (walk [] t) (t, []) =
        for_loop (\<lambda>(root, file). unlisted_body e retain_list root file) (walk_files [] t) (t, [])"
    unfolding walk_files_def by (rule for_loop_walk)
  then show ?thesis
    unfolding delete_unlisted_images_def
    by (simp add: unlisted_loop[OF distinct_walk_files[OF assms] ex] split: option.splits)
qed

lemma unlisted_plan_subset:
  "set (fst (unlisted_plan e retain_list xs)) \<subseteq> {x \<in> set xs. fst (splitext (snd x)) \<notin> retain_list}"
  by (induction xs) (auto split: option.splits)

lemma unlisted_plan_again:
  "distinct xs \<Longrightarrow>
   unlisted_plan e retain_list (filter (\<lambda>x. x \<notin> set (fst (unlisted_plan e retain_list xs))) xs)
     = ([], snd (unlisted_plan e retain_list xs))"
proof (induction xs)
  case Nil
  then show ?case by simp
next
  case (Cons x xs)
  let ?ds = "fst (unlisted_plan e retain_list xs)"
  have dist: "distinct xs" and notin: "x \<notin> set xs" using Cons.prems by auto
  show ?case
  proof (cases "fst (splitext (snd x)) \<in> retain_list")
    case True
    have "x \<notin> set ?ds" using unlisted_plan_subset[of e retain_list xs] True by auto
    then show ?thesis using True Cons.IH[OF dist] by simp
  next
    case False
    show ?thesis
    proof (cases "remove_refused e x")
      case (Some m)
      then show ?thesis using False by simp
    next
      case None
      have "filter (\<lambda>y. y \<notin> set (x # ?ds)) xs = filter (\<lambda>y. y \<notin> set ?ds) xs"
        using notin by (auto intro: filter_cong)
      then show ?thesis using False None Cons.IH[OF dist] by simp
    qed
  qed
qed

section \<open>Member names\<close>

lemma str_join_split: "str_join c (str_split c s) = s"
proof (induction s)
  case Nil
  then show ?case by simp
next
  case (Cons x xs)
  obtain w ws where w: "str_split c xs = w # ws"
    using str_split_not_Nil[of c xs] by (cases "str_split c xs") auto
  show ?case using Cons w by (cases ws) auto
qed

lemma str_split_parts: "x \<in> set (str_split c s) \<Longrightarrow> c \<notin> set x"
proof (induction s arbitrary: x)
  case Nil
  then show ?case by simp
next
  case (Cons y ys)
  obtain w ws where w: "str_split c ys = w # ws"
    using str_split_not_Nil[of c ys] by (cases "str_split c ys") auto
  show ?case
  proof (cases "y = c")
    case True
    with Cons show ?thesis by auto
  next
    case False
    with Cons.prems w have "x = y # w \<or> x \<in> set ws" by simp
    then show ?thesis
    proof
      assume "x = y # w"
      moreover have "c \<notin> set w" using Cons.IH[of w] w by simp
      ultimately show ?thesis using False by simp
    next
      assume "x \<in> set ws"
      then show ?thesis using Cons.IH[of x] w by simp
    qed
  qed
qed

lemma arcname_parts_valid: "x \<in> set (arcname_parts n) \<Longrightarrow> valid_name x"
  using str_split_parts[of x "CHR ''/''" n]
  by (auto simp: arcname_parts_def valid_name_def os_sep_def)

lemma plain_name_parts: "plain_name n \<Longrightarrow> arcname_parts n = str_split CHR ''/'' n"
  by (simp add: plain_name_def arcname_parts_def)

lemma plain_name_join: "plain_name n \<Longrightarrow> str_join os_sep (arcname_parts n) = n"
  by (simp add: plain_name_parts str_join_split os_sep_def)

lemma plain_name_parts_not_Nil: "plain_name n \<Longrightarrow> arcname_parts n \<noteq> []"
  by (simp add: plain_name_parts str_split_not_Nil)

lemma read_file_empty: "read_file (Dir [] []) q g = None"
  by (cases q) simp_all

lemma read_subdir_or_new:
  "read_file (Dir fls ds) (d # q) g = read_file (subdir_or_new ds d) q g"
  by (simp add: subdir_or_new_def read_file_empty split: option.splits)

lemma set_alist_update: "set (AList.update k v al) \<subseteq> insert (k, v) (set al)"
  by (induction al) auto

lemma wf_subdir_or_new: "wf_tree (Dir fls ds) \<Longrightarrow> wf_tree (subdir_or_new ds d)"
proof (cases "map_of ds d")
  case None
  then show ?thesis by (simp add: subdir_or_new_def)
next
  case (Some t)
  assume wf: "wf_tree (Dir fls ds)"
  from Some have "(d, t) \<in> set ds" by (rule map_of_SomeD)
  with wf have "wf_tree t" by auto
  with Some show ?thesis by (simp add: subdir_or_new_def)
qed

lemma wf_update_subdir:
  assumes "wf_tree (Dir fls ds)" and "d \<notin> fst ` set fls" and "valid_name d" and "wf_tree t'"
  shows "wf_tree (Dir fls (AList.update d t' ds))"
proof -
  have keys: "fst ` set (AList.update d t' ds) = {d} \<union> fst ` set ds" by (rule dom_update)
  have d1: "distinct (map fst (AList.update d t' ds))"
    using assms(1) by (simp add: distinct_update)
  have d2: "distinct (map fst fls)" using assms(1) by simp
  have d3: "fst ` set fls \<inter> fst ` set (AList.update d t' ds) = {}"
    using assms(1,2) keys by auto
  have v: "\<forall>n \<in> fst ` set fls \<union> fst ` set (AList.update d t' ds). valid_name n"
    using assms(1,3) keys by auto
  have sub: "\<forall>x \<in> set (AList.update d t' ds). wf_tree (snd x)"
    using set_alist_update[of d t' ds] assms(1,4) by auto
  from d1 d2 d3 v sub show ?thesis by simp
qed

lemma put_file_read:
  "put_file p f bytes t = Inr t' \<Longrightarrow>
   read_file t' q g = (if q = p \<and> g = f then Some bytes else read_file t q g)"
proof (induction p f bytes t arbitrary: t' q rule: put_file.induct)
  case (1 f bytes fls ds)
  then have t': "t' = Dir (AList.update f bytes fls) ds" by (simp split: if_splits)
  show ?case by (cases q) (simp_all add: t' update_conv')
next
  case (2 d p f bytes fls ds)
  from 2(2) have nf: "d \<notin> fst ` set fls" by (simp split: if_splits)
  from 2(2) nf obtain t'' where t'': "put_file p f bytes (subdir_or_new ds d) = Inr t''"
    and t': "t' = Dir fls (AList.update d t'' ds)"
    by (auto split: sum.splits)
  show ?case
  proof (cases q)
    case Nil
    then show ?thesis by (simp add: t')
  next
    case (Cons d' q')
    show ?thesis
    proof (cases "d' = d")
      case True
      have "read_file t' q g = read_file t'' q' g"
        by (simp add: t' Cons True update_conv')
      also have "\<dots> = (if q' = p \<and> g = f then Some bytes else read_file (subdir_or_new ds d) q' g)"
        using 2(1)[OF nf t''] .
      also have "\<dots> = (if q = d # p \<and> g = f then Some bytes else read_file (Dir fls ds) q g)"
        using read_subdir_or_new[of fls ds d q' g] by (simp add: Cons True)
      finally show ?thesis .
    next
      case False
      then show ?thesis by (simp add: t' Cons update_conv')
    qed
  qed
qed

lemma put_file_wf:
  "wf_tree t \<Longrightarrow> valid_name f \<Longrightarrow> \<forall>d \<in> set p. valid_name d \<Longrightarrow>
   put_file p f bytes t = Inr t' \<Longrightarrow> wf_tree t'"
proof (induction p f bytes t arbitrary: t' rule: put_file.induct)
  case (1 f bytes fls ds)
  from 1(4) have nd: "f \<notin> fst ` set ds" and t': "t' = Dir (AList.update f bytes fls) ds"
    by (simp_all split: if_splits)
  have keys: "fst ` set (AList.update f bytes fls) = {f} \<union> fst ` set fls" by (rule dom_update)
  have d1: "distinct (map fst (AList.update f bytes fls))"
    using 1(1) by (simp add: distinct_update)
  have d2: "distinct (map fst ds)" using 1(1) by simp
  have d3: "fst ` set (AList.update f bytes fls) \<inter> fst ` set ds = {}"
    using 1(1) nd keys by auto
  have v: "\<forall>n \<in> fst ` set (AList.update f bytes fls) \<union> fst ` set ds. valid_name n"
    using 1(1,2) keys by auto
  have sub: "\<forall>x \<in> set ds. wf_tree (snd x)" using 1(1) by simp
  from d1 d2 d3 v sub show ?case by (simp add: t')
next
  case (2 d p f bytes fls ds)
  from 2(5) have nf: "d \<notin> fst ` set fls" by (simp split: if_splits)
  from 2(5) nf obtain t'' where t'': "put_file p f bytes (subdir_or_new ds d) = Inr t''"
    and t': "t' = Dir fls (AList.update d t'' ds)"
    by (auto split: sum.splits)
  have "wf_tree t''"
    using 2(1)[OF nf wf_subdir_or_new[OF 2(2)] 2(3) _ t''] 2(4) by simp
  then show ?case
    unfolding t' using wf_update_subdir[OF 2(2) nf] 2(4) by simp
qed

lemma put_dir_read: "put_dir p t = Inr t' \<Longrightarrow> read_file t' q g = read_file t q g"
proof (induction p t arbitrary: t' q rule: put_dir.induct)
  case (1 t)
  then show ?case by simp
next
  case (2 d p fls ds)
  from 2(2) have nf: "d \<notin> fst ` set fls" by (simp split: if_splits)
  from 2(2) nf obtain t'' where t'': "put_dir p (subdir_or_new ds d) = Inr t''"
    and t': "t' = Dir fls (AList.update d t'' ds)"
    by (auto split: sum.splits)
  show ?case
  proof (cases q)
    case Nil
    then show ?thesis by (simp add: t')
  next
    case (Cons d' q')
    show ?thesis
    proof (cases "d' = d")
      case True
      have "read_file t' q g = read_file t'' q' g"
        by (simp add: t' Cons True update_conv')
      also have "\<dots> = read_file (subdir_or_new ds d) q' g"
        using 2(1)[OF nf t''] .
      also have "\<dots> = read_file (Dir fls ds) q g"
        using read_subdir_or_new[of fls ds d q' g] by (simp add: Cons True)
      finally show ?thesis .
    next
      case False
      then show ?thesis by (simp add: t' Cons update_conv')
    qed
  qed
qed

lemma put_dir_wf:
  "wf_tree t \<Longrightarrow> \<forall>d \<in> set p. valid_name d \<Longrightarrow> put_dir p t = Inr t' \<Longrightarrow> wf_tree t'"
proof (induction p t arbitrary: t' rule: put_dir.induct)
  case (1 t)
  then show ?case by simp
next
  case (2 d p fls ds)
  from 2(4) have nf: "d \<notin> fst ` set fls" by (simp split: if_splits)
  from 2(4) nf obtain t'' where t'': "put_dir p (subdir_or_new ds d) = Inr t''"
    and t': "t' = Dir fls (AList.update d t'' ds)"
    by (auto split: sum.splits)
  have "wf_tree t''"
    using 2(1)[OF nf wf_subdir_or_new[OF 2(2)] _ t''] 2(3) by simp
  then show ?case
    unfolding t' using wf_update_subdir[OF 2(2) nf] 2(3) by simp
qed

section \<open>Extraction step by step\<close>

lemma node_map_Folder: "node_map (Folder t) = (\<lambda>k. read_file t (fst k) (snd k))"
  by (simp add: node_map_def)

lemma node_map_Absent: "node_map Absent = Map.empty"
  by (simp add: node_map_def)

lemma node_map_new: "node_map (Folder (Dir [] [])) = Map.empty"
  by (simp add: node_map_def read_file_empty)

lemma extract_member_sound:
  assumes "node_ok nd"
    and "extract_member nd m = Inr nd'"
    and "is_dir_name (fst m) \<or> arcname_parts (fst m) \<noteq> []"
  shows "node_ok nd' \<and>
         node_map nd' = (if is_dir_name (fst m) then node_map nd
                         else (node_map nd)(member_key m \<mapsto> snd m))"
proof (cases "arcname_parts (fst m) = []")
  case True
  with assms(3) have isdir: "is_dir_name (fst m)" by simp
  show ?thesis
  proof (cases nd)
    case Absent
    with assms(2) True isdir have "nd' = Folder (Dir [] [])"
      by (simp add: extract_member_def)
    then show ?thesis using Absent isdir by (simp add: node_map_new node_map_Absent)
  next
    case (Regular old)
    with assms(1) show ?thesis by simp
  next
    case (Folder t)
    with assms(2) True isdir have "nd' = Folder t"
      by (simp add: extract_member_def)
    then show ?thesis using Folder assms(1) isdir by simp
  qed
next
  case False
  define t where "t = (case nd of Folder t \<Rightarrow> t | _ \<Rightarrow> Dir [] [])"
  have notreg: "\<And>old. nd \<noteq> Regular old" using assms(1) by auto
  have wft: "wf_tree t" using assms(1) by (cases nd) (simp_all add: t_def)
  have mapt: "node_map nd = (\<lambda>k. read_file t (fst k) (snd k))"
    using notreg by (cases nd) (simp_all add: t_def node_map_def read_file_empty)
  have valid: "\<forall>x \<in> set (arcname_parts (fst m)). valid_name x"
    using arcname_parts_valid by blast
  show ?thesis
  proof (cases "is_dir_name (fst m)")
    case True
    from assms(2) False True notreg obtain t' where
      t': "put_dir (arcname_parts (fst m)) t = Inr t'" and nd': "nd' = Folder t'"
      by (cases nd) (auto simp: extract_member_def t_def Let_def split: sum.splits)
    have "wf_tree t'" using put_dir_wf[OF wft valid t'] .
    moreover have "node_map nd' = node_map nd"
      by (simp add: nd' node_map_Folder mapt put_dir_read[OF t'])
    ultimately show ?thesis using True nd' by simp
  next
    case isfile: False
    from assms(2) False isfile notreg obtain t' where
      t': "put_file (butlast (arcname_parts (fst m))) (last (arcname_parts (fst m))) (snd m) t = Inr t'"
      and nd': "nd' = Folder t'"
      by (cases nd) (auto simp: extract_member_def t_def Let_def split: sum.splits)
    have v1: "valid_name (last (arcname_parts (fst m)))"
      using valid False by simp
    have v2: "\<forall>d \<in> set (butlast (arcname_parts (fst m))). valid_name d"
      using valid by (meson in_set_butlastD)
    have "wf_tree t'" using put_file_wf[OF wft v1 v2 t'] .
    moreover have "node_map nd' = (node_map nd)(member_key m \<mapsto> snd m)"
      by (rule ext) (auto simp: nd' node_map_Folder mapt put_file_read[OF t'] member_key_def
                           prod_eq_iff)
    ultimately show ?thesis using isfile nd' by simp
  qed
qed

lemma file_alist_Cons:
  "file_alist (m # ms) =
     (if is_dir_name (fst m) then file_alist ms else (member_key m, snd m) # file_alist ms)"
  by (simp add: file_alist_def file_members_def)

lemma extractall_sound:
  "node_ok nd \<Longrightarrow> extractall a nd = Inr nd' \<Longrightarrow>
   \<forall>m \<in> set a. is_dir_name (fst m) \<or> arcname_parts (fst m) \<noteq> [] \<Longrightarrow>
   node_ok nd' \<and> node_map nd' = node_map nd ++ map_of (rev (file_alist a))"
proof (induction a arbitrary: nd)
  case Nil
  then show ?case by (simp add: file_alist_def file_members_def)
next
  case (Cons m ms)
  from Cons.prems(2) obtain nd1 where nd1: "extract_member nd m = Inr nd1"
    and rest: "extractall ms nd1 = Inr nd'"
    by (auto split: sum.splits)
  have okm: "is_dir_name (fst m) \<or> arcname_parts (fst m) \<noteq> []" using Cons.prems(3) by simp
  have s1: "node_ok nd1" and m1: "node_map nd1 =
      (if is_dir_name (fst m) then node_map nd else (node_map nd)(member_key m \<mapsto> snd m))"
    using extract_member_sound[OF Cons.prems(1) nd1 okm] by simp_all
  have ih: "node_ok nd' \<and> node_map nd' = node_map nd1 ++ map_of (rev (file_alist ms))"
    using Cons.IH[OF s1 rest] Cons.prems(3) by simp
  show ?case
  proof (cases "is_dir_name (fst m)")
    case True
    then show ?thesis using ih m1 by (simp add: file_alist_Cons)
  next
    case False
    have "node_map nd ++ map_of (rev (file_alist (m # ms))) =
          node_map nd ++ ([member_key m \<mapsto> snd m] ++ map_of (rev (file_alist ms)))"
      using False by (simp add: file_alist_Cons)
    also have "\<dots> = (node_map nd)(member_key m \<mapsto> snd m) ++ map_of (rev (file_alist ms))"
      by (simp add: map_add_assoc[symmetric])
    finally show ?thesis using ih m1 False by simp
  qed
qed

lemma zip_write_loop:
  "(\<And>x. x \<in> set xs \<Longrightarrow> read_file t (fst x) (snd x) \<noteq> None) \<Longrightarrow>
   for_loop (\<lambda>(root, file). zip_write t root file) xs zipf =
     (zipf @ map (\<lambda>x. (str_join os_sep (fst x @ [snd x]), the (read_file t (fst x) (snd x)))) xs,
      None)"
proof (induction xs arbitrary: zipf)
  case Nil
  then show ?case by simp
next
  case (Cons x xs)
  obtain r f where x: "x = (r, f)" by (cases x)
  from Cons.prems[of x] obtain bytes where b: "read_file t r f = Some bytes" by (auto simp: x)
  have "\<And>y. y \<in> set xs \<Longrightarrow> read_file t (fst y) (snd y) \<noteq> None" using Cons.prems by simp
  from Cons.IH[OF this] show ?case by (simp add: x b zip_write_def)
qed

lemma create_zip_char:
  assumes "wf_tree t"
  shows "create_zip_from_folder (Folder t) =
     (map (\<lambda>x. (str_join os_sep (fst x @ [snd x]), the (read_file t (fst x) (snd x))))
          (walk_files [] t), None)"
proof -
  have ex: "\<And>x. x \<in> set (walk_files [] t) \<Longrightarrow> read_file t (fst x) (snd x) \<noteq> None"
    using walk_files_iff[OF assms, of "[]"] by (metis append_Nil prod.collapse)
  have "create_zip_from_folder (Folder t) =
        for_loop (\<lambda>(root, file). zip_write t root file) (walk_files [] t) []"
    unfolding create_zip_from_folder_def walk_files_def by (simp add: for_loop_walk)
  then show ?thesis using zip_write_loop[OF ex, of "walk_files [] t" "[]"] by simp
qed

lemma create_zip_set:
  assumes "wf_tree t"
  shows "set (fst (create_zip_from_folder (Folder t))) =
         {(str_join os_sep (q @ [g]), bytes) | q g bytes. read_file t q g = Some bytes}"
proof -
  have mem: "\<And>q g. ((q, g) \<in> set (walk_files [] t)) = (read_file t q g \<noteq> None)"
    using walk_files_iff[OF assms, of "[]"] by simp
  show ?thesis
  proof (rule set_eqI)
    fix y
    have "(y \<in> set (fst (create_zip_from_folder (Folder t)))) =
          (\<exists>x \<in> set (walk_files [] t).
              y = (str_join os_sep (fst x @ [snd x]), the (read_file t (fst x) (snd x))))"
      by (auto simp: create_zip_char[OF assms])
    also have "\<dots> = (\<exists>q g. (q, g) \<in> set (walk_files [] t) \<and>
              y = (str_join os_sep (q @ [g]), the (read_file t q g)))"
      by (metis fst_conv snd_conv prod.collapse)
    also have "\<dots> = (\<exists>q g bytes. read_file t q g = Some bytes \<and> y = (str_join os_sep (q @ [g]), bytes))"
      unfolding mem by (metis option.sel option.distinct(1) not_None_eq)
    finally show "(y \<in> set (fst (create_zip_from_folder (Folder t)))) =
       (y \<in> {(str_join os_sep (q @ [g]), bytes) | q g bytes. read_file t q g = Some bytes})"
      by blast
  qed
qed

section \<open>The paths of plain names\<close>

lemma member_key_inj:
  assumes "plain_name (fst m)" and "plain_name (fst m')" and "member_key m = member_key m'"
  shows "fst m = fst m'"
proof -
  have "arcname_parts (fst m) = butlast (arcname_parts (fst m)) @ [last (arcname_parts (fst m))]"
    using plain_name_parts_not_Nil[OF assms(1)] by simp
  also have "\<dots> = butlast (arcname_parts (fst m')) @ [last (arcname_parts (fst m'))]"
    using assms(3) by (simp add: member_key_def)
  also have "\<dots> = arcname_parts (fst m')"
    using plain_name_parts_not_Nil[OF assms(2)] by simp
  finally have "str_join os_sep (arcname_parts (fst m)) = str_join os_sep (arcname_parts (fst m'))"
    by simp
  then show ?thesis by (simp add: plain_name_join assms(1,2))
qed

lemma member_key_join:
  "plain_name (fst m) \<Longrightarrow> str_join os_sep (fst (member_key m) @ [snd (member_key m)]) = fst m"
  using plain_name_parts_not_Nil[of "fst m"] plain_name_join[of "fst m"]
  by (simp add: member_key_def)

lemma file_members_plain:
  "\<forall>m \<in> set a. is_dir_name (fst m) \<or> plain_name (fst m) \<Longrightarrow>
   m \<in> set (file_members a) \<Longrightarrow> plain_name (fst m)"
  by (auto simp: file_members_def)

lemma distinct_file_alist:
  assumes "\<forall>m \<in> set a. is_dir_name (fst m) \<or> plain_name (fst m)"
    and "distinct (map fst (file_members a))"
  shows "distinct (map fst (file_alist a))"
proof -
  have eq: "map fst (file_alist a) = map member_key (file_members a)"
    by (simp add: file_alist_def o_def)
  have dm: "distinct (file_members a)" using assms(2) by (rule distinct_map[THEN iffD1, THEN conjunct1])
  have inj: "inj_on member_key (set (file_members a))"
  proof (rule inj_onI)
    fix m m' assume m: "m \<in> set (file_members a)" and m': "m' \<in> set (file_members a)"
      and k: "member_key m = member_key m'"
    have "fst m = fst m'"
      using member_key_inj[OF file_members_plain[OF assms(1) m] file_members_plain[OF assms(1) m'] k] .
    then show "m = m'"
      using assms(2) m m' by (meson distinct_map inj_onD)
  qed
  show ?thesis unfolding eq using dm inj by (simp add: distinct_map)
qed
section \<open>The claims\<close>

text \<open>
  Claim C1.  Take a file of the tree whose folder name gives the expected size \<open>(W, H)\<close>,
  whose image decodes to \<open>(aw, ah)\<close> and whose removal the operating system does not
  refuse.  After the size pass the file is still there if and only if
  \<open>|aw - W| \<le> tolerance\<close> and \<open>|ah - H| \<le> tolerance\<close>, and it is gone otherwise.  In
  particular a file under folder \<open>100x200\<close> with actual size \<open>(101, 199)\<close> is kept at
  tolerance 1 and deleted at tolerance 0.
\<close>

theorem size_pass_tolerance:
  assumes "wf_tree t"
    and "read_file t root file = Some bytes"
    and "decode e bytes = Inr (aw, ah)"
    and "remove_refused e (root, file) = None"
  shows "(\<forall>W H. get_expected_size (folder_name_of root) = Some (W, H) \<longrightarrow>
            (read_file (size_pass_tree e base_dir t tolerance) root file = Some bytes)
              = (\<bar>aw - W\<bar> \<le> tolerance \<and> \<bar>ah - H\<bar> \<le> tolerance) \<and>
            (read_file (size_pass_tree e base_dir t tolerance) root file = None)
              = (\<not> (\<bar>aw - W\<bar> \<le> tolerance \<and> \<bar>ah - H\<bar> \<le> tolerance))) \<and>
         (folder_name_of root = ''100x200'' \<and> (aw, ah) = (101, 199) \<longrightarrow>
            read_file (size_pass_tree e base_dir t 1) root file = Some bytes \<and>
            read_file (size_pass_tree e base_dir t 0) root file = None)"
proof -
  have v: "\<And>W H tol. get_expected_size (folder_name_of root) = Some (W, H) \<Longrightarrow>
        verdict_removes (size_verdict e tol t root file)
          = (\<not> (\<bar>aw - W\<bar> \<le> tol \<and> \<bar>ah - H\<bar> \<le> tol))"
    using assms(2-4) by (simp add: size_verdict_def is_within_tolerance_def)
  have r: "\<And>tol. read_file (size_pass_tree e base_dir t tol) root file =
        (if verdict_removes (size_verdict e tol t root file) then None else Some bytes)"
    using size_pass_read[OF assms(1)] assms(2) by simp
  have general: "\<forall>W H. get_expected_size (folder_name_of root) = Some (W, H) \<longrightarrow>
            (read_file (size_pass_tree e base_dir t tolerance) root file = Some bytes)
              = (\<bar>aw - W\<bar> \<le> tolerance \<and> \<bar>ah - H\<bar> \<le> tolerance) \<and>
            (read_file (size_pass_tree e base_dir t tolerance) root file = None)
              = (\<not> (\<bar>aw - W\<bar> \<le> tolerance \<and> \<bar>ah - H\<bar> \<le> tolerance))"
    by (simp add: r v)
  have particular: "folder_name_of root = ''100x200'' \<and> (aw, ah) = (101, 199) \<longrightarrow>
            read_file (size_pass_tree e base_dir t 1) root file = Some bytes \<and>
            read_file (size_pass_tree e base_dir t 0) root file = None"
  proof
    assume h: "folder_name_of root = ''100x200'' \<and> (aw, ah) = (101, 199)"
    then have g: "get_expected_size (folder_name_of root) = Some (100, 200)"
      by (simp add: size_100x200)
    from h have "aw = 101" "ah = 199" by simp_all
    then show "read_file (size_pass_tree e base_dir t 1) root file = Some bytes \<and>
            read_file (size_pass_tree e base_dir t 0) root file = None"
      by (simp add: r v[OF g])
  qed
  from general particular show ?thesis by blast
qed

theorem size_pass_tolerance_witness:
  "read_file (size_pass_tree example_env ''temp_extracted'' example_tree 1) [''100x200''] ''a.png''
     = Some ''a'' \<and>
   read_file (size_pass_tree example_env ''temp_extracted'' example_tree 0) [''100x200''] ''a.png''
     = None"
proof -
  have h1: "wf_tree example_tree" by code_simp
  have h2: "read_file example_tree [''100x200''] ''a.png'' = Some ''a''" by code_simp
  have h3: "decode example_env ''a'' = Inr (101, 199)" by code_simp
  have h4: "remove_refused example_env ([''100x200''], ''a.png'') = None" by code_simp
  have h5: "folder_name_of [''100x200''] = ''100x200'' \<and> ((101::int), (199::int)) = (101, 199)"
    by code_simp
  from size_pass_tolerance[OF h1 h2 h3 h4, of "''temp_extracted''" 1] h5
  show ?thesis by blast
qed

text \<open>
  Claim C2.  For a file below at least one folder, the folder name that the size pass
  uses is the first component \<open>d\<close> of the file's path relative to the extraction
  directory, however deep the file lies: the file is deleted if and only if \<open>d\<close> parses
  to an expected size that the actual size misses.  The witness is a file in
  \<open>100x200/5x5\<close> that is kept although it does not fit its immediate parent \<open>5x5\<close>.
\<close>

theorem size_pass_top_level_folder:
  assumes "wf_tree t"
    and "read_file t (d # ds) file = Some bytes"
    and "decode e bytes = Inr actual"
    and "remove_refused e (d # ds, file) = None"
  shows "folder_name_of (d # ds) = d \<and>
         (read_file (size_pass_tree e base_dir t tolerance) (d # ds) file = None)
           = (\<exists>expected. get_expected_size d = Some expected \<and>
                          \<not> is_within_tolerance actual expected tolerance)"
proof -
  have fn: "folder_name_of (d # ds) = d"
    using folder_name_of_file[OF assms(1,2)] .
  have "verdict_removes (size_verdict e tolerance t (d # ds) file)
          = (\<exists>expected. get_expected_size d = Some expected \<and>
                          \<not> is_within_tolerance actual expected tolerance)"
    using assms(2-4) by (auto simp: size_verdict_def fn split: option.splits)
  then show ?thesis
    using size_pass_read[OF assms(1), of e base_dir tolerance "d # ds" "file"] assms(2) fn by simp
qed

theorem size_pass_top_level_folder_witness:
  "folder_name_of [''100x200'', ''5x5''] = ''100x200'' \<and>
   read_file (size_pass_tree example_env ''temp_extracted'' example_tree 1)
             [''100x200'', ''5x5''] ''n.png'' \<noteq> None \<and>
   get_expected_size ''5x5'' = Some (5, 5) \<and> \<not> is_within_tolerance (101, 199) (5, 5) 1"
proof -
  have h1: "wf_tree example_tree" by code_simp
  have h2: "read_file example_tree [''100x200'', ''5x5''] ''n.png'' = Some ''n''" by code_simp
  have h3: "decode example_env ''n'' = Inr (101, 199)" by code_simp
  have h4: "remove_refused example_env ([''100x200'', ''5x5''], ''n.png'') = None" by code_simp
  have h5: "get_expected_size ''100x200'' = Some (100, 200)" by code_simp
  have h6: "is_within_tolerance (101, 199) (100, 200) 1" by code_simp
  have h7: "get_expected_size ''5x5'' = Some (5, 5) \<and> \<not> is_within_tolerance (101, 199) (5, 5) 1"
    by code_simp
  from size_pass_top_level_folder[OF h1 h2 h3 h4, of "''temp_extracted''" 1] h5 h6 h7
  show ?thesis by simp
qed

text \<open>
  Claim C3, on the sample tree at tolerance 0.  The removal of \<open>100x200/locked.png\<close>
  (101 by 199, outside the tolerance) is refused.  The size pass returns without an
  exception, reports the refusal as a warning that starts with \<open>Could not open\<close>, and
  goes on to remove \<open>100x200/5x5/n.png\<close>, a file that the walk reaches later.  The
  sibling \<open>delete_unlisted_images\<close> stops at the same refusal and hands the
  \<open>OSError\<close> to its caller.
\<close>

theorem size_pass_swallows_removal_failure:
  "read_file example_tree [''100x200''] ''locked.png'' = Some ''l'' \<and>
   decode example_env ''l'' = Inr (101, 199) \<and>
   remove_refused example_env ([''100x200''], ''locked.png'') = Some ''Permission denied'' \<and>
   snd (check_and_delete_by_size example_env ''temp_extracted'' example_tree 0) = None \<and>
   warnings (fst (check_and_delete_by_size example_env ''temp_extracted'' example_tree 0)) =
     [''Could not open temp_extracted/100x200/bad.png: cannot identify image file'',
      ''Could not open temp_extracted/100x200/locked.png: Permission denied'',
      ''Could not open temp_extracted/misc/m.png: cannot identify image file''] \<and>
   read_file example_tree [''100x200'', ''5x5''] ''n.png'' = Some ''n'' \<and>
   read_file (size_pass_tree example_env ''temp_extracted'' example_tree 0)
             [''100x200'', ''5x5''] ''n.png'' = None \<and>
   delete_unlisted_images example_env example_tree {''root'', ''a'', ''bad''} =
     (example_tree, Inl (OSError ''Permission denied''))"
  by code_simp

text \<open>
  Claim C4.  A file whose image cannot be decoded is still in the tree after the size
  pass, a warning with the file's path and the text of the error has been shown, and no
  exception leaves the pass.  The other files fare exactly as they would if the undecodable
  file had not been there: the same files remain and the same lines are recorded.
\<close>

theorem size_pass_decode_failure:
  assumes "wf_tree t"
    and "read_file t root file = Some bytes"
    and "decode e bytes = Inl ex"
  shows "read_file (size_pass_tree e base_dir t tolerance) root file = Some bytes \<and>
         warning_text base_dir root file ex
           \<in> set (warnings (fst (check_and_delete_by_size e base_dir t tolerance))) \<and>
         snd (check_and_delete_by_size e base_dir t tolerance) = None \<and>
         (\<forall>q g. (q, g) \<noteq> (root, file) \<longrightarrow>
            read_file (size_pass_tree e base_dir t tolerance) q g =
            read_file (size_pass_tree e base_dir (remove_file root file t) tolerance) q g) \<and>
         deleted_by_size (fst (check_and_delete_by_size e base_dir t tolerance)) =
         deleted_by_size (fst (check_and_delete_by_size e base_dir (remove_file root file t) tolerance))"
proof -
  let ?t' = "remove_file root file t"
  have wf': "wf_tree ?t'" using assms(1) by (rule wf_remove)
  have v: "size_verdict e tolerance t root file = Warn ex"
    using assms(2,3) by (rule size_verdict_decode_fails)
  have kept: "read_file (size_pass_tree e base_dir t tolerance) root file = Some bytes"
    using size_pass_read[OF assms(1), of e base_dir tolerance root "file"] v assms(2) by simp
  have warn: "warning_text base_dir root file ex
           \<in> set (warnings (fst (check_and_delete_by_size e base_dir t tolerance)))"
    using size_pass_warnings[OF assms(1) _ v] assms(2) by simp
  have ret: "snd (check_and_delete_by_size e base_dir t tolerance) = None"
    using assms(1) by (rule size_pass_returns)
  have others: "\<forall>q g. (q, g) \<noteq> (root, file) \<longrightarrow>
            read_file (size_pass_tree e base_dir t tolerance) q g =
            read_file (size_pass_tree e base_dir ?t' tolerance) q g"
    by (simp add: size_pass_read[OF assms(1)] size_pass_read[OF wf'] size_verdict_remove read_remove)
  have same_v: "\<And>x. x \<in> set (filter (\<lambda>x. x \<noteq> (root, file)) (walk_files [] t)) \<Longrightarrow>
      (\<lambda>(r, f). verdict_lines (size_verdict e tolerance ?t' r f)) x =
      (\<lambda>(r, f). verdict_lines (size_verdict e tolerance t r f)) x"
  proof -
    fix x assume "x \<in> set (filter (\<lambda>x. x \<noteq> (root, file)) (walk_files [] t))"
    then have ne: "(fst x, snd x) \<noteq> (root, file)" by simp
    have "size_verdict e tolerance ?t' (fst x) (snd x) = size_verdict e tolerance t (fst x) (snd x)"
      using ne by (rule size_verdict_remove)
    then show "(\<lambda>(r, f). verdict_lines (size_verdict e tolerance ?t' r f)) x =
      (\<lambda>(r, f). verdict_lines (size_verdict e tolerance t r f)) x"
      by (simp add: case_prod_beta)
  qed
  have "deleted_by_size (fst (check_and_delete_by_size e base_dir ?t' tolerance)) =
        concat (map (\<lambda>(r, f). verdict_lines (size_verdict e tolerance ?t' r f))
                    (filter (\<lambda>x. x \<noteq> (root, file)) (walk_files [] t)))"
    using walk_files_remove[of "[]" root "file" t] by (simp add: size_pass_char[OF wf'])
  also have "\<dots> = concat (map (\<lambda>(r, f). verdict_lines (size_verdict e tolerance t r f))
                    (filter (\<lambda>x. x \<noteq> (root, file)) (walk_files [] t)))"
  proof -
    have "map (\<lambda>(r, f). verdict_lines (size_verdict e tolerance ?t' r f))
              (filter (\<lambda>x. x \<noteq> (root, file)) (walk_files [] t)) =
          map (\<lambda>(r, f). verdict_lines (size_verdict e tolerance t r f))
              (filter (\<lambda>x. x \<noteq> (root, file)) (walk_files [] t))"
      by (rule map_cong[OF refl]) (rule same_v)
    then show ?thesis by (rule arg_cong)
  qed
  also have "\<dots> = concat (map (\<lambda>(r, f). verdict_lines (size_verdict e tolerance t r f))
                    (walk_files [] t))"
    by (rule concat_map_filter_skip) (auto simp: v)
  also have "\<dots> = deleted_by_size (fst (check_and_delete_by_size e base_dir t tolerance))"
    by (simp add: size_pass_char[OF assms(1)])
  finally have lines: "deleted_by_size (fst (check_and_delete_by_size e base_dir t tolerance)) =
         deleted_by_size (fst (check_and_delete_by_size e base_dir ?t' tolerance))"
    by simp
  from kept warn ret others lines show ?thesis by blast
qed

theorem size_pass_decode_failure_witness:
  "read_file (size_pass_tree example_env ''temp_extracted'' example_tree 0) [''100x200''] ''bad.png''
     = Some ''corrupt'' \<and>
   ''Could not open temp_extracted/100x200/bad.png: cannot identify image file''
     \<in> set (warnings (fst (check_and_delete_by_size example_env ''temp_extracted'' example_tree 0))) \<and>
   snd (check_and_delete_by_size example_env ''temp_extracted'' example_tree 0) = None \<and>
   read_file (size_pass_tree example_env ''temp_extracted''
                (remove_file [''100x200''] ''bad.png'' example_tree) 0) [''100x200''] ''a.png'' = None"
proof -
  have h1: "wf_tree example_tree" by code_simp
  have h2: "read_file example_tree [''100x200''] ''bad.png'' = Some ''corrupt''" by code_simp
  have h3: "decode example_env ''corrupt'' = Inl (UnidentifiedImageError ''cannot identify image file'')"
    by code_simp
  have h4: "warning_text ''temp_extracted'' [''100x200''] ''bad.png''
              (UnidentifiedImageError ''cannot identify image file'')
            = ''Could not open temp_extracted/100x200/bad.png: cannot identify image file''"
    by code_simp
  have h5: "([''100x200''], ''a.png'') \<noteq> ([''100x200''], ''bad.png'')" by simp
  have h6: "read_file (size_pass_tree example_env ''temp_extracted'' example_tree 0)
              [''100x200''] ''a.png'' = None"
    by code_simp
  from size_pass_decode_failure[OF h1 h2 h3, of "''temp_extracted''" 0] h4 h5 h6
  show ?thesis by (metis (no_types, lifting))
qed

text \<open>
  Claim C5.  A file under a top-level folder whose name \<open>get_expected_size\<close> does not
  parse (the name \<open>misc\<close> is one) is still in the tree after the size pass, whatever
  the decoder says about it and whatever the tolerance.
\<close>

theorem size_pass_unparsable_folder:
  assumes "wf_tree t"
    and "read_file t (d # ds) file = Some bytes"
    and "get_expected_size d = None"
  shows "read_file (size_pass_tree e base_dir t tolerance) (d # ds) file = Some bytes \<and>
         get_expected_size ''misc'' = None"
proof -
  have "folder_name_of (d # ds) = d"
    using assms(1,2) by (rule folder_name_of_file)
  then have "\<not> verdict_removes (size_verdict e tolerance t (d # ds) file)"
    using assms(3) size_verdict_expected_None[of "d # ds" e tolerance t "file"] by simp
  then show ?thesis
    using size_pass_read[OF assms(1), of e base_dir tolerance "d # ds" "file"] assms(2)
    by (simp add: get_expected_size_misc)
qed

theorem size_pass_unparsable_folder_witness:
  "read_file (size_pass_tree example_env ''temp_extracted'' example_tree 0) [''misc''] ''k.png''
     = Some ''k'' \<and>
   decode example_env ''k'' = Inr (101, 199)"
proof -
  have h1: "wf_tree example_tree" by code_simp
  have h2: "read_file example_tree [''misc''] ''k.png'' = Some ''k''" by code_simp
  have h3: "get_expected_size ''misc'' = None" by code_simp
  have h4: "decode example_env ''k'' = Inr (101, 199)" by code_simp
  from size_pass_unparsable_folder[OF h1 h2 h3, of example_env "''temp_extracted''" 0] h4
  show ?thesis by simp
qed

text \<open>
  Claim C6.  \<open>found\<close> is the set of the extension-stripped names of the files of the
  tree.  \<open>list_files_not_in_txt\<close> returns \<open>found - R\<close> and \<open>R - found\<close>; so
  \<open>extra \<union> (found \<inter> R) = found\<close>, \<open>extra \<inter> R = {}\<close>, and the same for
  \<open>missing\<close> with the roles of \<open>found\<close> and \<open>R\<close> exchanged.  The function only reads
  the tree: it is a function of the tree and the retain set and returns no new tree.
\<close>

theorem reconciler_set_differences:
  assumes "wf_tree t"
  shows "found_names t = {fst (splitext file) | root file. read_file t root file \<noteq> None} \<and>
         list_files_not_in_txt t R = (found_names t - R, R - found_names t) \<and>
         fst (list_files_not_in_txt t R) \<union> (found_names t \<inter> R) = found_names t \<and>
         fst (list_files_not_in_txt t R) \<inter> R = {} \<and>
         snd (list_files_not_in_txt t R) \<union> (found_names t \<inter> R) = R \<and>
         snd (list_files_not_in_txt t R) \<inter> found_names t = {}"
proof -
  have a: "found_names t = {fst (splitext file) | root file. read_file t root file \<noteq> None}"
    using found_names_iff[OF assms] by blast
  have b: "list_files_not_in_txt t R = (found_names t - R, R - found_names t)"
    by (simp add: list_files_not_in_txt_def)
  have c: "(found_names t - R) \<union> (found_names t \<inter> R) = found_names t" by blast
  have d: "(found_names t - R) \<inter> R = {}" by blast
  have e: "(R - found_names t) \<union> (found_names t \<inter> R) = R" by blast
  have f: "(R - found_names t) \<inter> found_names t = {}" by blast
  show ?thesis unfolding b fst_conv snd_conv using a c d e f by blast
qed

theorem reconciler_set_differences_witness:
  "list_files_not_in_txt example_tree {''a'', ''zz''} =
     ({''root'', ''bad'', ''locked'', ''n'', ''m'', ''k''}, {''zz''}) \<and>
   found_names example_tree = {fst (splitext file) | root file. read_file example_tree root file \<noteq> None}"
proof -
  have h1: "wf_tree example_tree" by code_simp
  have h2: "list_files_not_in_txt example_tree {''a'', ''zz''} =
     ({''root'', ''bad'', ''locked'', ''n'', ''m'', ''k''}, {''zz''})" by code_simp
  from reconciler_set_differences[OF h1, of "{''a'', ''zz''}"] h2 show ?thesis by simp
qed

text \<open>
  Claim C7.  Run \<open>delete_unlisted_images\<close> on a tree, then run it again on the tree
  that the first run left, with the same retain set.  The second run removes nothing: it
  leaves the tree as it found it.  If the first run returned, the second returns the empty
  list; if the first run was ended by a refused removal, the second is ended by the same
  exception.
\<close>

theorem delete_unlisted_idempotent:
  assumes "wf_tree t"
    and "delete_unlisted_images e t retain_list = (t1, r1)"
  shows "delete_unlisted_images e t1 retain_list =
           (t1, case r1 of Inl ex \<Rightarrow> Inl ex | Inr deleted \<Rightarrow> Inr [])"
proof -
  let ?xs = "walk_files [] t"
  let ?ds = "fst (unlisted_plan e retain_list ?xs)"
  have t1: "t1 = fold (\<lambda>(r, f). remove_file r f) ?ds t"
    and r1: "r1 = (case snd (unlisted_plan e retain_list ?xs) of
                     None \<Rightarrow> Inr (map snd ?ds) | Some ex \<Rightarrow> Inl ex)"
    using assms(2) by (simp_all add: delete_unlisted_char[OF assms(1)])
  have wf1: "wf_tree t1" unfolding t1 using assms(1) by (rule wf_fold_remove)
  have files1: "walk_files [] t1 = filter (\<lambda>x. x \<notin> set ?ds) ?xs"
    unfolding t1 by (rule walk_files_fold_remove_root)
  have plan1: "unlisted_plan e retain_list (walk_files [] t1)
                 = ([], snd (unlisted_plan e retain_list ?xs))"
    unfolding files1 using distinct_walk_files[OF assms(1)] by (rule unlisted_plan_again)
  show ?thesis
    by (simp add: delete_unlisted_char[OF wf1] plan1 r1 split: option.splits)
qed

theorem delete_unlisted_idempotent_witness:
  "delete_unlisted_images example_env
     (fst (delete_unlisted_images example_env example_tree {''a'', ''locked'', ''n''}))
     {''a'', ''locked'', ''n''}
   = (Dir [] [(''100x200'', Dir [(''a.png'', ''a''), (''locked.png'', ''l'')]
                                [(''5x5'', Dir [(''n.png'', ''n'')] [])]),
              (''misc'', Dir [] [])],
      Inr [])"
proof -
  have h1: "wf_tree example_tree" by code_simp
  have h2: "delete_unlisted_images example_env example_tree {''a'', ''locked'', ''n''} =
     (Dir [] [(''100x200'', Dir [(''a.png'', ''a''), (''locked.png'', ''l'')]
                                [(''5x5'', Dir [(''n.png'', ''n'')] [])]),
              (''misc'', Dir [] [])],
      Inr [''root.png'', ''bad.png'', ''m.png'', ''k.png''])" by code_simp
  from delete_unlisted_idempotent[OF h1 h2] h2 show ?thesis by simp
qed

text \<open>
  Claim C8, as amended.  Take an archive that extracts without an exception and whose
  file members have pairwise distinct names made of kept components only (no empty, \<open>.\<close>
  or \<open>..\<close> component, hence no leading slash).  Rebuilding the archive from the
  extracted folder raises nothing and gives exactly the file members of the input: the
  same names with the same bytes.  Directory members are not written back.
\<close>

theorem roundtrip_file_members:
  assumes "extract_zip a old = Inr nd"
    and "\<forall>m \<in> set a. is_dir_name (fst m) \<or> plain_name (fst m)"
    and "distinct (map fst (file_members a))"
  shows "snd (create_zip_from_folder nd) = None \<and>
         set (fst (create_zip_from_folder nd)) = set (file_members a)"
proof -
  from assms(1) have ex: "extractall a Absent = Inr nd"
    by (cases old) (simp_all add: extract_zip_def)
  have parts: "\<forall>m \<in> set a. is_dir_name (fst m) \<or> arcname_parts (fst m) \<noteq> []"
    using assms(2) plain_name_parts_not_Nil by blast
  have ok: "node_ok nd" and nm: "node_map nd = map_of (rev (file_alist a))"
    using extractall_sound[OF _ ex parts] by (simp_all add: node_map_Absent)
  have dist: "distinct (map fst (rev (file_alist a)))"
    using distinct_file_alist[OF assms(2,3)] by (simp add: rev_map[symmetric])
  have look: "\<And>k bytes. (node_map nd k = Some bytes) = ((k, bytes) \<in> set (file_alist a))"
    unfolding nm using map_of_eq_Some_iff[OF dist] by simp
  show ?thesis
  proof (cases nd)
    case Absent
    have "file_alist a = []"
    proof (rule ccontr)
      assume "file_alist a \<noteq> []"
      then obtain k bytes where "(k, bytes) \<in> set (file_alist a)"
        by (metis list.set_intros(1) neq_Nil_conv surj_pair)
      then have "node_map nd k = Some bytes" by (simp add: look)
      then show False by (simp add: Absent node_map_Absent)
    qed
    then have "file_members a = []" by (simp add: file_alist_def)
    then show ?thesis by (simp add: Absent create_zip_from_folder_def)
  next
    case (Regular bytes)
    with ok show ?thesis by simp
  next
    case (Folder t)
    have wf: "wf_tree t" using ok Folder by simp
    have rd: "\<And>q g bytes. (read_file t q g = Some bytes) = (((q, g), bytes) \<in> set (file_alist a))"
      using look[of "(q, g)" for q g] by (simp add: Folder node_map_Folder)
    have "set (fst (create_zip_from_folder nd)) =
          {(str_join os_sep (q @ [g]), bytes) | q g bytes. ((q, g), bytes) \<in> set (file_alist a)}"
      unfolding Folder create_zip_set[OF wf] rd ..
    also have "\<dots> = (\<lambda>m. (str_join os_sep (fst (member_key m) @ [snd (member_key m)]), snd m))
                       ` set (file_members a)"
    proof (rule set_eqI)
      fix y
      have "(y \<in> {(str_join os_sep (q @ [g]), bytes) | q g bytes. ((q, g), bytes) \<in> set (file_alist a)})
            = (\<exists>q g bytes. ((q, g), bytes) \<in> set (file_alist a) \<and> y = (str_join os_sep (q @ [g]), bytes))"
        by blast
      also have "\<dots> = (\<exists>m \<in> set (file_members a).
                 y = (str_join os_sep (fst (member_key m) @ [snd (member_key m)]), snd m))"
      proof
        assume "\<exists>q g bytes. ((q, g), bytes) \<in> set (file_alist a) \<and> y = (str_join os_sep (q @ [g]), bytes)"
        then obtain q g bytes where h: "((q, g), bytes) \<in> set (file_alist a)"
          and y: "y = (str_join os_sep (q @ [g]), bytes)" by blast
        from h obtain m where m: "m \<in> set (file_members a)" and k: "member_key m = (q, g)"
          and b: "snd m = bytes"
          unfolding file_alist_def by auto
        from y k b have "y = (str_join os_sep (fst (member_key m) @ [snd (member_key m)]), snd m)"
          by simp
        with m show "\<exists>m \<in> set (file_members a).
                 y = (str_join os_sep (fst (member_key m) @ [snd (member_key m)]), snd m)" by blast
      next
        assume "\<exists>m \<in> set (file_members a).
                 y = (str_join os_sep (fst (member_key m) @ [snd (member_key m)]), snd m)"
        then obtain m where m: "m \<in> set (file_members a)"
          and y: "y = (str_join os_sep (fst (member_key m) @ [snd (member_key m)]), snd m)" by blast
        have "((fst (member_key m), snd (member_key m)), snd m) \<in> set (file_alist a)"
          unfolding file_alist_def using m by (simp add: image_iff) blast
        with y show "\<exists>q g bytes. ((q, g), bytes) \<in> set (file_alist a) \<and> y = (str_join os_sep (q @ [g]), bytes)"
          by blast
      qed
      finally show "(y \<in> {(str_join os_sep (q @ [g]), bytes) | q g bytes. ((q, g), bytes) \<in> set (file_alist a)})
            = (y \<in> (\<lambda>m. (str_join os_sep (fst (member_key m) @ [snd (member_key m)]), snd m))
                       ` set (file_members a))"
        by (simp add: image_iff)
    qed
    also have "\<dots> = (\<lambda>m. (fst m, snd m)) ` set (file_members a)"
      by (rule image_cong[OF refl]) (simp add: member_key_join file_members_plain[OF assms(2)])
    also have "\<dots> = set (file_members a)" by simp
    finally have "set (fst (create_zip_from_folder nd)) = set (file_members a)" .
    moreover have "snd (create_zip_from_folder nd) = None"
      by (simp add: Folder create_zip_char[OF wf])
    ultimately show ?thesis by simp
  qed
qed

theorem roundtrip_file_members_witness:
  "set (fst (create_zip_from_folder
         (Folder (Dir [(''c.png'', ''C'')]
                      [(''imgs'', Dir [(''a.png'', ''A'')] [(''100x200'', Dir [(''b.png'', ''B'')] [])]),
                       (''empty'', Dir [] [])]))))
     = {(''imgs/a.png'', ''A''), (''imgs/100x200/b.png'', ''B''), (''c.png'', ''C'')}"
proof -
  have h1: "extract_zip plain_archive Absent =
      Inr (Folder (Dir [(''c.png'', ''C'')]
                      [(''imgs'', Dir [(''a.png'', ''A'')] [(''100x200'', Dir [(''b.png'', ''B'')] [])]),
                       (''empty'', Dir [] [])]))"
    by code_simp
  have h2: "\<forall>m \<in> set plain_archive. is_dir_name (fst m) \<or> plain_name (fst m)" by code_simp
  have h3: "distinct (map fst (file_members plain_archive))" by code_simp
  have h4: "set (file_members plain_archive) =
      {(''imgs/a.png'', ''A''), (''imgs/100x200/b.png'', ''B''), (''c.png'', ''C'')}" by code_simp
  from roundtrip_file_members[OF h1 h2 h3] h4 show ?thesis by simp
qed

text \<open>
  The claim as stated fails on \<open>mixed_archive\<close>: the directory member \<open>imgs/\<close> is
  not in the rebuilt archive, \<open>./a.png\<close> comes back as \<open>a.png\<close>, and of the two
  members named \<open>b.png\<close> only the later one comes back.
\<close>

theorem roundtrip_counterexample:
  "extract_zip mixed_archive Absent =
     Inr (Folder (Dir [(''a.png'', ''A''), (''b.png'', ''2'')] [(''imgs'', Dir [] [])])) \<and>
   create_zip_from_folder (Folder (Dir [(''a.png'', ''A''), (''b.png'', ''2'')] [(''imgs'', Dir [] [])]))
     = ([(''a.png'', ''A''), (''b.png'', ''2'')], None) \<and>
   set [(''a.png'', ''A''), (''b.png'', ''2'')] \<noteq> set mixed_archive \<and>
   (''imgs/'', []) \<in> set mixed_archive \<and>
   (''./a.png'', ''A'') \<in> set mixed_archive \<and>
   (''b.png'', ''1'') \<in> set mixed_archive \<and>
   ''imgs/'' \<notin> set (map fst [(''a.png'', ''A''), (''b.png'', ''2'')]) \<and>
   ''./a.png'' \<notin> set (map fst [(''a.png'', ''A''), (''b.png'', ''2'')]) \<and>
   (''b.png'', ''1'') \<notin> set [(''a.png'', ''A''), (''b.png'', ''2'')]"
  by code_simp

text \<open>
  Claim C9.  For the files directly in the extraction directory the inferred folder name is
  \<open>.\<close>, which does not parse; the size pass leaves every such file as it was.
\<close>

theorem size_pass_root_files:
  "folder_name_of [] = ''.'' \<and> get_expected_size ''.'' = None \<and>
   (wf_tree t \<longrightarrow>
      read_file (size_pass_tree e base_dir t tolerance) [] file = read_file t [] file)"
proof -
  have "\<not> verdict_removes (size_verdict e tolerance t [] file)"
    by (rule size_verdict_expected_None) (simp add: folder_name_of_root get_expected_size_dot)
  then have "wf_tree t \<longrightarrow>
      read_file (size_pass_tree e base_dir t tolerance) [] file = read_file t [] file"
    using size_pass_read[of t e base_dir tolerance "[]" "file"] by simp
  then show ?thesis by (simp add: folder_name_of_root get_expected_size_dot)
qed

theorem size_pass_root_files_witness:
  "read_file (size_pass_tree example_env ''temp_extracted'' example_tree 0) [] ''root.png''
     = Some ''r'' \<and>
   decode example_env ''r'' = Inr (101, 199)"
proof -
  have h1: "wf_tree example_tree" by code_simp
  have h2: "read_file example_tree [] ''root.png'' = Some ''r''" by code_simp
  have h3: "decode example_env ''r'' = Inr (101, 199)" by code_simp
  from size_pass_root_files[of example_tree example_env "''temp_extracted''" 0 "''root.png''"] h1 h2 h3
  show ?thesis by simp
qed

text \<open>
  Claim C10.  For a file without expected size the \<open>try\<close> block still opens the image
  first: when the decoder raises, the block raises, the handler shows the warning for that
  file, and the file stays.
\<close>

theorem size_pass_exempt_decode_warning:
  assumes "wf_tree t"
    and "read_file t root file = Some bytes"
    and "get_expected_size (folder_name_of root) = None"
    and "decode e bytes = Inl ex"
  shows "size_try e tolerance root (get_expected_size (folder_name_of root)) file
                  \<lparr>cur_tree = t, deleted_by_size = [], warnings = []\<rparr>
           = (\<lparr>cur_tree = t, deleted_by_size = [], warnings = []\<rparr>, Some ex) \<and>
         warning_text base_dir root file ex
           \<in> set (warnings (fst (check_and_delete_by_size e base_dir t tolerance))) \<and>
         read_file (size_pass_tree e base_dir t tolerance) root file = Some bytes"
proof -
  have v: "size_verdict e tolerance t root file = Warn ex"
    using assms(2,4) by (rule size_verdict_decode_fails)
  have a: "size_try e tolerance root (get_expected_size (folder_name_of root)) file
                  \<lparr>cur_tree = t, deleted_by_size = [], warnings = []\<rparr>
           = (\<lparr>cur_tree = t, deleted_by_size = [], warnings = []\<rparr>, Some ex)"
    using assms(2,4) by (simp add: size_try_def Image_open_size_def)
  have b: "warning_text base_dir root file ex
           \<in> set (warnings (fst (check_and_delete_by_size e base_dir t tolerance)))"
    using size_pass_warnings[OF assms(1) _ v] assms(2) by simp
  have c: "read_file (size_pass_tree e base_dir t tolerance) root file = Some bytes"
    using size_pass_read[OF assms(1), of e base_dir tolerance root "file"] v assms(2) by simp
  from a b c show ?thesis by blast
qed

theorem size_pass_exempt_decode_warning_witness:
  "''Could not open temp_extracted/misc/m.png: cannot identify image file''
     \<in> set (warnings (fst (check_and_delete_by_size example_env ''temp_extracted'' example_tree 1))) \<and>
   read_file (size_pass_tree example_env ''temp_extracted'' example_tree 1) [''misc''] ''m.png''
     = Some ''corrupt''"
proof -
  have h1: "wf_tree example_tree" by code_simp
  have h2: "read_file example_tree [''misc''] ''m.png'' = Some ''corrupt''" by code_simp
  have h3: "get_expected_size (folder_name_of [''misc'']) = None" by code_simp
  have h4: "decode example_env ''corrupt'' = Inl (UnidentifiedImageError ''cannot identify image file'')"
    by code_simp
  have h5: "warning_text ''temp_extracted'' [''misc''] ''m.png''
              (UnidentifiedImageError ''cannot identify image file'')
            = ''Could not open temp_extracted/misc/m.png: cannot identify image file''"
    by code_simp
  from size_pass_exempt_decode_warning[OF h1 h2 h3 h4, of 1 "''temp_extracted''"] h5
  show ?thesis by simp
qed

end
